theory Spec2Isabelle
  imports Complex_Main
begin

chapter \<open>OllamaRAG Multi: text normalisation, chunking, ingestion and query\<close>

text \<open>
  A shallow embedding of \<^verbatim>\<open>src/OllamaCAD/OllamaRAG_Multi.py\<close>. Python strings are
  modelled as \<open>string\<close> (lists of 8-bit characters, read as the code points 0 to 255);
  the results about chunk positions, lengths and counts do not depend on the character
  type. Python integers are \<open>int\<close>; indices known to be non-negative are \<open>nat\<close>.
  The external collaborators (OCR model, embedding model, answer model, vector index,
  CSV and spreadsheet readers, the file system walk) are inputs of the model: their
  results are given, the repository's own logic is translated line by line.
\<close>

section \<open>Definitions translated from the source\<close>

subsection \<open>Characters and string primitives of Python\<close>

abbreviation CR :: char where "CR \<equiv> CHR 0x0D"
abbreviation LF :: char where "LF \<equiv> CHR 0x0A"
abbreviation TAB :: char where "TAB \<equiv> CHR 0x09"
abbreviation SP :: char where "SP \<equiv> CHR 0x20"

text \<open>
  \<^verbatim>\<open>str.isspace\<close> on one character, for the code points below 256: the ASCII
  whitespace 0x09 to 0x0D, the separators 0x1C to 0x1F, the space, NEL (0x85) and the
  no-break space (0xA0). \<^verbatim>\<open>str.strip()\<close> removes exactly these at both ends.
\<close>

definition py_isspace :: "char \<Rightarrow> bool" where
  "py_isspace c \<longleftrightarrow> (of_char c :: nat) \<in> {9, 10, 11, 12, 13, 28, 29, 30, 31, 32, 133, 160}"

definition py_strip :: "string \<Rightarrow> string" where
  "py_strip s = rev (dropWhile py_isspace (rev (dropWhile py_isspace s)))"

text \<open>
  \<^verbatim>\<open>s.replace(old, new)\<close>: the non-overlapping occurrences of \<open>old\<close> are replaced
  from left to right; with an empty \<open>old\<close> Python inserts \<open>new\<close> before every character
  and at the end.
\<close>

function py_replace :: "string \<Rightarrow> string \<Rightarrow> string \<Rightarrow> string" where
  "py_replace old new s =
     (if old = [] then new @ concat (map (\<lambda>c. c # new) s)
      else if s = [] then []
      else if take (length old) s = old then new @ py_replace old new (drop (length old) s)
      else hd s # py_replace old new (tl s))"
  by pat_completeness auto
termination
  by (relation "measure (\<lambda>(old, new, s). length s)") auto

declare py_replace.simps [simp del]

text \<open>
  \<^verbatim>\<open>s[a:b]\<close> for integers \<open>a\<close> and \<open>b\<close>: a negative index counts from the end, and
  both indices are clamped to the range of the sequence.
\<close>

definition py_slice :: "'a list \<Rightarrow> int \<Rightarrow> int \<Rightarrow> 'a list" where
  "py_slice s a b =
     (let n = int (length s);
          lo = (if a < 0 then max (a + n) 0 else min a n);
          hi = (if b < 0 then max (b + n) 0 else min b n)
      in take (nat (hi - lo)) (drop (nat lo) s))"

subsection \<open>\<^verbatim>\<open>normalize_ws\<close> (lines 52 to 56)\<close>

text \<open>
  \<^verbatim>\<open>re.sub(r"[ \t]+", " ", text)\<close>: scanning from the left, every maximal run of
  spaces and tabs becomes one space.
\<close>

function sub_hspace :: "string \<Rightarrow> string" where
  "sub_hspace [] = []"
| "sub_hspace (c # cs) =
     (if c = SP \<or> c = TAB then SP # sub_hspace (dropWhile (\<lambda>x. x = SP \<or> x = TAB) cs)
      else c # sub_hspace cs)"
  by pat_completeness auto
termination
  by (relation "measure length") (auto simp: less_Suc_eq_le length_dropWhile_le)

text \<open>
  \<^verbatim>\<open>re.sub(r"\n{3,}", "\n\n", text)\<close>: at each position the greedy match takes the
  whole run of newlines that starts there; a run of three or more becomes two newlines,
  a shorter run is copied.
\<close>

function sub_newlines :: "string \<Rightarrow> string" where
  "sub_newlines [] = []"
| "sub_newlines (c # cs) =
     (if 3 \<le> length (takeWhile (\<lambda>x. x = LF) (c # cs))
      then LF # LF # sub_newlines (dropWhile (\<lambda>x. x = LF) cs)
      else c # sub_newlines cs)"
  by pat_completeness auto
termination
  by (relation "measure length") (auto simp: less_Suc_eq_le length_dropWhile_le)

definition normalize_ws :: "string \<Rightarrow> string" where
  "normalize_ws text =
     py_strip (sub_newlines (sub_hspace (py_replace [CR] [LF] (py_replace [CR, LF] [LF] text))))"

subsection \<open>\<^verbatim>\<open>chunk_text\<close> (lines 59 to 71)\<close>

text \<open>
  The \<^verbatim>\<open>while\<close> loop of \<^verbatim>\<open>chunk_text\<close>, with its state \<open>start\<close> and \<open>chunks\<close>.
  Nothing in the source bounds the number of iterations, so the loop is a partial
  function: \<open>None\<close> means that it never returns.
\<close>

partial_function (option) chunk_loop ::
  "string \<Rightarrow> int \<Rightarrow> int \<Rightarrow> int \<Rightarrow> string list \<Rightarrow> string list option" where
  "chunk_loop text chunk_chars overlap start chunks =
     (if start < int (length text) then
        (let end = min (int (length text)) (start + chunk_chars);
             chunks' = chunks @ [py_slice text start end]
         in if end = int (length text) then Some chunks'
            else chunk_loop text chunk_chars overlap (max 0 (end - overlap)) chunks')
      else Some chunks)"

declare chunk_loop.simps [code]

definition chunk_text :: "string \<Rightarrow> int \<Rightarrow> int \<Rightarrow> string list option" where
  "chunk_text text chunk_chars overlap =
     (let text = normalize_ws text in
      if text = [] then Some [] else chunk_loop text chunk_chars overlap 0 [])"

subsection \<open>Python helpers used by the ingestion\<close>

text \<open>\<^verbatim>\<open>str.lower()\<close> on the code points below 256: A to Z and the accented capitals
  0xC0 to 0xDE (without the multiplication sign 0xD7) move up by 32.\<close>

definition py_lower_char :: "char \<Rightarrow> char" where
  "py_lower_char c =
     (let n = (of_char c :: nat)
      in if (65 \<le> n \<and> n \<le> 90) \<or> (192 \<le> n \<and> n \<le> 222 \<and> n \<noteq> 215)
         then char_of (n + 32) else c)"

definition py_lower :: "string \<Rightarrow> string" where
  "py_lower s = map py_lower_char s"

text \<open>\<^verbatim>\<open>sep.join(parts)\<close>.\<close>

fun py_join :: "string \<Rightarrow> string list \<Rightarrow> string" where
  "py_join sep [] = []"
| "py_join sep [x] = x"
| "py_join sep (x # y # ys) = x @ sep @ py_join sep (y # ys)"

text \<open>\<^verbatim>\<open>str(n)\<close> for a non-negative integer, and the format \<^verbatim>\<open>{n:03d}\<close>: the decimal
  digits, padded with zeros on the left to three characters.\<close>

fun str_of_nat :: "nat \<Rightarrow> string" where
  "str_of_nat n =
     (if n < 10 then [char_of (48 + n)]
      else str_of_nat (n div 10) @ [char_of (48 + n mod 10)])"

declare str_of_nat.simps [simp del]

definition fmt03d :: "nat \<Rightarrow> string" where
  "fmt03d n = replicate (3 - length (str_of_nat n)) (CHR ''0'') @ str_of_nat n"

text \<open>
  \<^verbatim>\<open>os.path.splitext(p)[1]\<close> for a file name \<open>p\<close> (a path's extension is the one of
  its last component): the part from the last dot on, unless only dots stand before it.
\<close>

definition splitext_ext :: "string \<Rightarrow> string" where
  "splitext_ext p =
     (let after = rev (takeWhile (\<lambda>c. c \<noteq> CHR ''.'') (rev p));
          upto = dropWhile (\<lambda>c. c \<noteq> CHR ''.'') (rev p)
      in if upto = [] \<or> list_all (\<lambda>c. c = CHR ''.'') (tl upto) then []
         else CHR ''.'' # after)"

subsection \<open>Configuration, metadata records and the store (lines 26 to 45, 200 to 224)\<close>

record PipelineConfig =
  chunk_chars :: int
  chunk_overlap :: int
  top_k :: int

text \<open>
  One chunk metadata record: the dictionary built at lines 281, 296, 311, 329 and 365.
  A key that a file type does not set, and the value \<^verbatim>\<open>None\<close>, are both \<open>None\<close>.
\<close>

record meta =
  m_source :: string
  m_rel :: string
  m_file_type :: string
  m_page :: "nat option"
  m_sheet :: "string option"
  m_row :: "nat option"
  m_chunk_id :: nat
  m_tag :: string
  m_text :: string

text \<open>
  The three artifacts in the storage directory: the vector index, the pickled metadata
  and the manifest (the mapping under its key \<^verbatim>\<open>files\<close>, from relative path to content
  hash); \<open>None\<close> is a file that does not exist. The type \<open>'v\<close> is the embedding vector.
\<close>

record 'v store =
  index_file :: "'v list option"
  meta_file :: "meta list option"
  manifest_file :: "(string \<rightharpoonup> string) option"

text \<open>The orchestrator's own state: \<^verbatim>\<open>self.store.index\<close> and \<^verbatim>\<open>self.meta\<close>.\<close>

record 'v pipeline =
  p_index :: "'v list option"
  p_meta :: "meta list"

datatype py_error =
    FileNotFoundError string
  | RuntimeError string
  | IndexError
  | AttributeError

datatype 'a outcome = Diverges | Raises py_error | Returns 'a

subsection \<open>The folder and the external collaborators\<close>

text \<open>
  A spreadsheet sheet as \<^verbatim>\<open>pandas\<close> gives it with \<^verbatim>\<open>dtype=str\<close>: the column labels
  (\<^verbatim>\<open>str(c)\<close> of each, or \<open>None\<close>) and the rows of cells, a missing cell being \<open>None\<close>.
\<close>

record dataframe =
  df_columns :: "string option list"
  df_rows :: "string option list list"

text \<open>
  One file met by \<^verbatim>\<open>os.walk\<close>: its name \<open>n\<close>, the directory part of its path relative
  to the folder (empty at the top, else ending in the separator), its absolute path and
  content hash, and what each reader returns for it: the OCR model's raw answer for each
  page of a PDF and for an image, the decoded text, the rows of \<^verbatim>\<open>csv.reader\<close>, and
  the sheets of \<^verbatim>\<open>pd.read_excel(..., sheet_name=None)\<close> in the dictionary's order. The
  readers are assumed to answer; their failures are not modelled.
\<close>

record file_entry =
  fe_name :: string
  fe_dir :: string
  fe_abspath :: string
  fe_sha256 :: string
  fe_pdf_pages :: "string list"
  fe_ocr :: string
  fe_read :: string
  fe_csv_rows :: "string option list list"
  fe_excel_sheets :: "(string \<times> dataframe option) list"

record folder =
  folder_path :: string
  folder_is_dir :: bool
  walk_files :: "file_entry list"

text \<open>
  The environment: whether the optional imports succeeded (lines 14 to 23), the embedding
  of one text (lines 132 to 134), the index search (line 154, the row \<^verbatim>\<open>I[0]\<close>) and the
  chat completion of the answer model.
\<close>

record 'v env =
  pdf2image_available :: bool
  pandas_available :: bool
  embed_one :: "string \<Rightarrow> 'v"
  index_search :: "'v list \<Rightarrow> 'v \<Rightarrow> int \<Rightarrow> int list"
  chat :: "string \<Rightarrow> string \<Rightarrow> string"

subsection \<open>\<^verbatim>\<open>ingest_folder\<close> (lines 237 to 395)\<close>

definition exts_pdf :: "string list" where
  "exts_pdf = [''.pdf'']"

definition exts_img :: "string list" where
  "exts_img = [''.png'', ''.jpg'', ''.jpeg'', ''.bmp'', ''.tif'', ''.tiff'', ''.webp'']"

definition exts_txt :: "string list" where
  "exts_txt = [''.txt'', ''.md'', ''.log'', ''.json'', ''.xml'', ''.html'']"

definition exts_csv :: "string list" where
  "exts_csv = [''.csv'']"

definition exts_xlsx :: "string list" where
  "exts_xlsx = [''.xlsx'', ''.xls'', ''.xlsm'']"

text \<open>Line 257: the file is kept when its lower-cased name has a supported extension.\<close>

definition supported :: "file_entry \<Rightarrow> bool" where
  "supported e \<longleftrightarrow>
     splitext_ext (py_lower (fe_name e)) \<in> set (exts_pdf @ exts_img @ exts_txt @ exts_csv @ exts_xlsx)"

text \<open>Line 268: \<^verbatim>\<open>os.path.relpath(path, folder).replace("\\", "/")\<close>.\<close>

definition rel_of :: "file_entry \<Rightarrow> string" where
  "rel_of e = py_replace [CHR 0x5C] ''/'' (fe_dir e @ fe_name e)"

text \<open>The citation tags (lines 287, 302, 317, 335 and 372).\<close>

definition tag_pdf :: "string \<Rightarrow> nat \<Rightarrow> nat \<Rightarrow> string" where
  "tag_pdf rel page ci = ''[file:'' @ rel @ '' p'' @ fmt03d page @ '' c'' @ fmt03d ci @ '']''"

definition tag_chunk :: "string \<Rightarrow> nat \<Rightarrow> string" where
  "tag_chunk rel ci = ''[file:'' @ rel @ '' c'' @ fmt03d ci @ '']''"

definition tag_csv :: "string \<Rightarrow> nat \<Rightarrow> string" where
  "tag_csv rel r_i = ''[file:'' @ rel @ '' row'' @ fmt03d r_i @ '' c000]''"

definition tag_excel :: "string \<Rightarrow> string \<Rightarrow> nat \<Rightarrow> string" where
  "tag_excel rel sheet_name r_i =
     ''[file:'' @ rel @ '' sheet:'' @ sheet_name @ '' row'' @ fmt03d r_i @ '' c000]''"

text \<open>
  The inner loop \<^verbatim>\<open>for ci, ch in enumerate(chunk_text(text, ...))\<close> of the PDF, image
  and text branches; \<open>None\<close> when \<^verbatim>\<open>chunk_text\<close> does not return.
\<close>

definition chunk_metas ::
  "PipelineConfig \<Rightarrow> file_entry \<Rightarrow> string \<Rightarrow> string \<Rightarrow> nat option \<Rightarrow> string \<Rightarrow> meta list option" where
  "chunk_metas cfg e rel ftype page txt =
     (case chunk_text txt (chunk_chars cfg) (chunk_overlap cfg) of
        None \<Rightarrow> None
      | Some chs \<Rightarrow>
          Some (map (\<lambda>(ci, ch).
                  \<lparr>m_source = fe_abspath e, m_rel = rel, m_file_type = ftype, m_page = page,
                   m_sheet = None, m_row = None, m_chunk_id = ci,
                   m_tag = (case page of Some pg \<Rightarrow> tag_pdf rel pg ci | None \<Rightarrow> tag_chunk rel ci),
                   m_text = ch\<rparr>)
                (enumerate 0 chs)))"

text \<open>A loop whose body may not return: the results in order, \<open>None\<close> at the first \<open>None\<close>.\<close>

fun collect :: "('a \<Rightarrow> 'b list option) \<Rightarrow> 'a list \<Rightarrow> 'b list option" where
  "collect f [] = Some []"
| "collect f (x # xs) =
     (case f x of
        None \<Rightarrow> None
      | Some ys \<Rightarrow> (case collect f xs of None \<Rightarrow> None | Some zs \<Rightarrow> Some (ys @ zs)))"

text \<open>Lines 276 to 289: the pages of a PDF, numbered from 1; \<^verbatim>\<open>ocr_image\<close> normalises
  the model's answer (line 122).\<close>

definition pdf_metas :: "PipelineConfig \<Rightarrow> file_entry \<Rightarrow> string \<Rightarrow> meta list option" where
  "pdf_metas cfg e rel =
     collect (\<lambda>(i, answer). chunk_metas cfg e rel ''pdf'' (Some (i + 1)) (normalize_ws answer))
       (enumerate 0 (fe_pdf_pages e))"

text \<open>Lines 322 to 337: one record for each row of the CSV file that is not blank.\<close>

definition csv_metas :: "file_entry \<Rightarrow> string \<Rightarrow> meta list" where
  "csv_metas e rel =
     concat (map (\<lambda>(r_i, row).
         (let line = py_join '' | '' (map py_strip (List.map_filter (\<lambda>c. c) row))
          in if py_strip line = [] then []
             else [\<lparr>m_source = fe_abspath e, m_rel = rel, m_file_type = ''csv'', m_page = None,
                    m_sheet = None, m_row = Some r_i, m_chunk_id = 0,
                    m_tag = tag_csv rel r_i, m_text = line\<rparr>]))
       (enumerate 0 (fe_csv_rows e)))"

text \<open>\<^verbatim>\<open>_format_df_row\<close> (lines 226 to 235).\<close>

definition format_df_row :: "string list \<Rightarrow> string option list \<Rightarrow> string" where
  "format_df_row cols vals =
     py_strip (py_join '' | ''
       (concat (map (\<lambda>(c, v).
           (case v of
              None \<Rightarrow> []
            | Some x \<Rightarrow>
                (let s = py_strip x
                 in if s = [] \<or> py_lower s \<in> {''nan'', ''none''} then [] else [c @ ''='' @ s])))
         (zip cols vals))))"

text \<open>Lines 348 to 374: the sheets of a workbook; an absent or empty sheet is skipped,
  unnamed columns are called \<^verbatim>\<open>col0\<close>, \<^verbatim>\<open>col1\<close>, ..., missing cells become empty strings.\<close>

definition sheet_metas :: "file_entry \<Rightarrow> string \<Rightarrow> string \<Rightarrow> dataframe option \<Rightarrow> meta list" where
  "sheet_metas e rel sheet_name df =
     (case df of
        None \<Rightarrow> []
      | Some d \<Rightarrow>
          if df_columns d = [] \<or> df_rows d = [] then []
          else
            (let cols = map (\<lambda>c. case c of None \<Rightarrow> [] | Some x \<Rightarrow> py_strip x) (df_columns d);
                 cols = map (\<lambda>(j, c). if c \<noteq> [] then c else ''col'' @ str_of_nat j) (enumerate 0 cols);
                 filled = map (map (\<lambda>v. case v of None \<Rightarrow> Some [] | Some x \<Rightarrow> Some x)) (df_rows d)
             in concat (map (\<lambda>(r_i, row).
                  (let line = format_df_row cols row
                   in if py_strip line = [] then []
                      else [\<lparr>m_source = fe_abspath e, m_rel = rel, m_file_type = ''excel'',
                             m_page = None, m_sheet = Some sheet_name, m_row = Some r_i,
                             m_chunk_id = 0, m_tag = tag_excel rel sheet_name r_i,
                             m_text = line\<rparr>]))
                (enumerate 0 filled))))"

definition excel_metas :: "file_entry \<Rightarrow> string \<Rightarrow> meta list" where
  "excel_metas e rel =
     concat (map (\<lambda>(sheet_name, df). sheet_metas e rel sheet_name df) (fe_excel_sheets e))"

definition of_option :: "'a option \<Rightarrow> 'a outcome" where
  "of_option r = (case r of None \<Rightarrow> Diverges | Some x \<Rightarrow> Returns x)"

text \<open>Lines 272 to 374: the branch taken for one file, by its extension.\<close>

definition file_metas :: "PipelineConfig \<Rightarrow> 'v env \<Rightarrow> file_entry \<Rightarrow> string \<Rightarrow> meta list outcome" where
  "file_metas cfg ev e rel =
     (let ext = splitext_ext (py_lower (fe_name e))
      in if ext = ''.pdf'' then
           (if \<not> pdf2image_available ev
            then Raises (RuntimeError ''pdf2image not installed or failed to import.'')
            else of_option (pdf_metas cfg e rel))
         else if ext \<in> set exts_img then
           of_option (chunk_metas cfg e rel ''image'' None (normalize_ws (fe_ocr e)))
         else if ext \<in> set exts_txt then
           of_option (chunk_metas cfg e rel ''text'' None (normalize_ws (fe_read e)))
         else if ext \<in> set exts_csv then Returns (csv_metas e rel)
         else if ext \<in> set exts_xlsx then
           (if \<not> pandas_available ev
            then Raises (RuntimeError ''pandas not installed. Run: pip install pandas openpyxl'')
            else Returns (excel_metas e rel))
         else Returns [])"

text \<open>
  The loop over the files (lines 266 to 374). Its state is the manifest mapping \<open>prev\<close>
  and the records so far; \<^verbatim>\<open>all_chunks\<close> always holds the \<^verbatim>\<open>text\<close> fields of the
  records, since both lists are appended to together.
\<close>

fun ingest_files ::
  "PipelineConfig \<Rightarrow> 'v env \<Rightarrow> file_entry list \<Rightarrow> (string \<rightharpoonup> string)
     \<Rightarrow> (meta list \<times> (string \<rightharpoonup> string)) outcome" where
  "ingest_files cfg ev [] prev = Returns ([], prev)"
| "ingest_files cfg ev (e # es) prev =
     (let rel = rel_of e;
          prev = prev(rel \<mapsto> fe_sha256 e)
      in case file_metas cfg ev e rel of
           Diverges \<Rightarrow> Diverges
         | Raises x \<Rightarrow> Raises x
         | Returns ms \<Rightarrow>
             (case ingest_files cfg ev es prev of
                Diverges \<Rightarrow> Diverges
              | Raises x \<Rightarrow> Raises x
              | Returns (ms', prev') \<Rightarrow> Returns (ms @ ms', prev')))"

text \<open>
  \<^verbatim>\<open>ingest_folder\<close>: the result and the storage directory afterwards. The manifest,
  when the file exists, is the mapping that \<^verbatim>\<open>_save_manifest\<close> wrote. Every write
  (lines 386 to 391) follows the last \<^verbatim>\<open>raise\<close> of the function.
\<close>

definition ingest_folder ::
  "PipelineConfig \<Rightarrow> 'v env \<Rightarrow> folder \<Rightarrow> 'v pipeline \<Rightarrow> 'v store \<Rightarrow> 'v pipeline outcome \<times> 'v store" where
  "ingest_folder cfg ev fld p st =
     (if \<not> folder_is_dir fld then (Raises (FileNotFoundError (folder_path fld)), st)
      else
        (let prev = (case manifest_file st of None \<Rightarrow> Map.empty | Some files \<Rightarrow> files);
             files = filter supported (walk_files fld)
         in if files = [] then (Raises (RuntimeError ''No supported files found in folder.''), st)
            else
              (case ingest_files cfg ev files prev of
                 Diverges \<Rightarrow> (Diverges, st)
               | Raises x \<Rightarrow> (Raises x, st)
               | Returns (metas, prev') \<Rightarrow>
                   (let all_chunks = map m_text metas
                    in if all_chunks = []
                       then (Raises (RuntimeError ''No text extracted from supported files.''), st)
                       else
                         (let vectors = map (embed_one ev) all_chunks
                          in (Returns \<lparr>p_index = Some vectors, p_meta = metas\<rparr>,
                              \<lparr>index_file = Some vectors, meta_file = Some metas,
                               manifest_file = Some prev'\<rparr>))))))"

subsection \<open>\<^verbatim>\<open>OllamaQA.answer\<close> and \<^verbatim>\<open>query\<close> (lines 169 to 197, 406 to 412)\<close>

definition qa_system_prompt :: string where
  "qa_system_prompt =
     ''You answer questions using ONLY the provided context.'' @ [LF] @
     ''Rules:'' @ [LF] @
     ''- Plain text only.'' @ [LF] @
     ''- If the answer isn't in the context, say: I don't know (not in RAG folder).'' @ [LF] @
     ''- Cite sources using tags like [file:... p003 c001] or [file:... sheet:... row012 c000].'' @ [LF]"

definition qa_answer :: "'v env \<Rightarrow> string \<Rightarrow> meta list \<Rightarrow> string" where
  "qa_answer ev question contexts =
     (let ctx_blocks = map (\<lambda>c. m_tag c @ [LF] @ m_text c @ [LF]) contexts;
          context_text = py_join ([LF] @ ''---'' @ [LF]) ctx_blocks;
          user = ''CONTEXT:'' @ [LF] @ context_text @ [LF, LF] @
                 ''QUESTION:'' @ [LF] @ question @ [LF, LF] @
                 ''Write the best possible answer with citations.''
      in py_strip (chat ev qa_system_prompt user))"

text \<open>The calls that \<^verbatim>\<open>query\<close> makes to the external services, in order.\<close>

datatype ext_call = EmbedCall string | SearchCall int | AnswerCall string "meta list"

text \<open>Line 409: \<^verbatim>\<open>[self.meta[i] for i in idxs if i >= 0]\<close>; an index past the end of the
  list raises.\<close>

fun contexts_of :: "meta list \<Rightarrow> int list \<Rightarrow> py_error + meta list" where
  "contexts_of ms [] = Inr []"
| "contexts_of ms (i # idxs) =
     (if i \<ge> 0 then
        (if nat i < length ms then
           (case contexts_of ms idxs of Inl x \<Rightarrow> Inl x | Inr cs \<Rightarrow> Inr (ms ! nat i # cs))
         else Inl IndexError)
      else contexts_of ms idxs)"

definition fallback_answer :: string where
  "fallback_answer = ''I don't know (not in RAG folder).''"

definition query ::
  "PipelineConfig \<Rightarrow> 'v env \<Rightarrow> 'v pipeline \<Rightarrow> string \<Rightarrow> (py_error + string) \<times> ext_call list" where
  "query cfg ev p question =
     (let qvec = embed_one ev question
      in case p_index p of
           None \<Rightarrow> (Inl AttributeError, [EmbedCall question])
         | Some ix \<Rightarrow>
             (let idxs = index_search ev ix qvec (top_k cfg)
              in case contexts_of (p_meta p) idxs of
                   Inl x \<Rightarrow> (Inl x, [EmbedCall question, SearchCall (top_k cfg)])
                 | Inr contexts \<Rightarrow>
                     if contexts = []
                     then (Inr fallback_answer, [EmbedCall question, SearchCall (top_k cfg)])
                     else (Inr (qa_answer ev question contexts),
                           [EmbedCall question, SearchCall (top_k cfg),
                            AnswerCall question contexts])))"

text \<open>The metadata records of a run that returned (the new \<^verbatim>\<open>self.meta\<close>).\<close>

definition returned_meta :: "'v pipeline outcome \<times> 'v store \<Rightarrow> meta list option" where
  "returned_meta res = (case fst res of Returns p \<Rightarrow> Some (p_meta p) | _ \<Rightarrow> None)"

subsection \<open>Concrete inputs\<close>

text \<open>
  The defaults of \<^verbatim>\<open>PipelineConfig\<close> (lines 37 to 40), the state after
  \<^verbatim>\<open>RAGPipeline.__init__\<close> with an empty storage directory, and inputs for the worked
  examples: a file at the top of the folder \<^verbatim>\<open>/data\<close> for which every reader returns
  nothing, a folder with given files, and an environment whose index search returns a
  given list and whose answer model always gives the same text.
\<close>

definition default_config :: PipelineConfig where
  "default_config = \<lparr>chunk_chars = 1200, chunk_overlap = 200, top_k = 10\<rparr>"

definition new_pipeline :: "'v pipeline" where
  "new_pipeline = \<lparr>p_index = None, p_meta = []\<rparr>"

definition empty_store :: "'v store" where
  "empty_store = \<lparr>index_file = None, meta_file = None, manifest_file = None\<rparr>"

definition blank_file :: "string \<Rightarrow> file_entry" where
  "blank_file n =
     \<lparr>fe_name = n, fe_dir = [], fe_abspath = ''/data/'' @ n, fe_sha256 = [],
      fe_pdf_pages = [], fe_ocr = [], fe_read = [], fe_csv_rows = [], fe_excel_sheets = []\<rparr>"

definition top_folder :: "file_entry list \<Rightarrow> folder" where
  "top_folder files = \<lparr>folder_path = ''/data'', folder_is_dir = True, walk_files = files\<rparr>"

definition test_env :: "int list \<Rightarrow> nat env" where
  "test_env found =
     \<lparr>pdf2image_available = True, pandas_available = True, embed_one = length,
      index_search = (\<lambda>ix q k. found), chat = (\<lambda>system user. '' 42 [file:t.csv row001 c000] '')\<rparr>"

section \<open>Auxiliary predicates for the proofs\<close>

text \<open>
  The shape of a normalised text, used to prove that the normaliser is idempotent:
  \<open>hs_ok\<close> holds when the text has no tab and no two adjacent spaces, \<open>nl_ok\<close> when no
  three newlines stand in a row.
\<close>

fun hs_ok :: "string \<Rightarrow> bool" where
  "hs_ok [] = True"
| "hs_ok (c # cs) = (c \<noteq> TAB \<and> \<not> (c = SP \<and> cs \<noteq> [] \<and> hd cs = SP) \<and> hs_ok cs)"

fun nl_ok :: "string \<Rightarrow> bool" where
  "nl_ok [] = True"
| "nl_ok (c # cs) = (length (takeWhile (\<lambda>x. x = LF) (c # cs)) < 3 \<and> nl_ok cs)"

text \<open>
  For the citation tags: the decimal digits; \<open>has_infix pat s\<close>, the list \<open>s\<close> contains
  \<open>pat\<close> as a contiguous part; the fields of a record that its tag spells out; and
  \<open>tag_ok\<close>, the record's tag is the one of its file type for these fields (a record of an
  image or text file carries neither page, sheet nor row, and its relative path ends
  in the letter of the file's extension).
\<close>

definition is_digit :: "char \<Rightarrow> bool" where
  "is_digit c \<longleftrightarrow> 48 \<le> (of_char c :: nat) \<and> (of_char c :: nat) \<le> 57"

fun has_infix :: "'a list \<Rightarrow> 'a list \<Rightarrow> bool" where
  "has_infix pat [] = (pat = [])"
| "has_infix pat (x # xs) = (take (length pat) (x # xs) = pat \<or> has_infix pat xs)"

definition address :: "meta \<Rightarrow> string \<times> nat option \<times> string option \<times> nat option \<times> nat" where
  "address r = (m_rel r, m_page r, m_sheet r, m_row r, m_chunk_id r)"

definition tag_ok :: "meta \<Rightarrow> bool" where
  "tag_ok r \<longleftrightarrow>
     (case (m_page r, m_sheet r, m_row r) of
        (Some pg, None, None) \<Rightarrow> m_tag r = tag_pdf (m_rel r) pg (m_chunk_id r)
      | (None, None, None) \<Rightarrow>
          m_tag r = tag_chunk (m_rel r) (m_chunk_id r)
          \<and> m_rel r \<noteq> [] \<and> \<not> is_digit (last (m_rel r))
      | (None, None, Some ri) \<Rightarrow> m_tag r = tag_csv (m_rel r) ri \<and> m_chunk_id r = 0
      | (None, Some s, Some ri) \<Rightarrow> m_tag r = tag_excel (m_rel r) s ri \<and> m_chunk_id r = 0
      | _ \<Rightarrow> False)"

section \<open>The text normaliser\<close>

lemma py_replace_absent:
  "old \<noteq> [] \<Longrightarrow> hd old \<notin> set s \<Longrightarrow> py_replace old new s = s"
proof (induction s)
  case Nil
  then show ?case by (simp add: py_replace.simps [of old new "[]"])
next
  case (Cons a s)
  from Cons.prems have ne: "take (length old) (a # s) \<noteq> old"
    by (cases old) auto
  from Cons have "py_replace old new s = s" by simp
  with ne Cons.prems show ?case
    by (simp add: py_replace.simps [of old new "a # s"])
qed

lemma py_replace_single_set:
  "set (py_replace [a] [b] s) \<subseteq> insert b (set s - {a})"
proof (induction s)
  case Nil
  show ?case by (simp add: py_replace.simps [of "[a]" "[b]" "[]"])
next
  case (Cons c s)
  then show ?case
    by (auto simp: py_replace.simps [of "[a]" "[b]" "c # s"])
qed

lemma sub_hspace_set: "set (sub_hspace s) \<subseteq> insert SP (set s)"
proof (induction s rule: sub_hspace.induct)
  case 1
  show ?case by simp
next
  case (2 c cs)
  show ?case
  proof (cases "c = SP \<or> c = TAB")
    case True
    with 2 have "set (sub_hspace (dropWhile (\<lambda>x. x = SP \<or> x = TAB) cs))
        \<subseteq> insert SP (set (dropWhile (\<lambda>x. x = SP \<or> x = TAB) cs))" by simp
    also have "\<dots> \<subseteq> insert SP (set cs)"
      using set_dropWhileD by fastforce
    finally show ?thesis using True by auto
  next
    case False
    with 2 show ?thesis by auto
  qed
qed

lemma sub_newlines_set: "set (sub_newlines s) \<subseteq> set s"
proof (induction s rule: sub_newlines.induct)
  case 1
  show ?case by simp
next
  case (2 c cs)
  show ?case
  proof (cases "3 \<le> length (takeWhile (\<lambda>x. x = LF) (c # cs))")
    case True
    then have c: "c = LF" by (auto split: if_splits)
    from True 2 have "set (sub_newlines (dropWhile (\<lambda>x. x = LF) cs))
        \<subseteq> set (dropWhile (\<lambda>x. x = LF) cs)" by simp
    also have "\<dots> \<subseteq> set cs"
      using set_dropWhileD by fastforce
    finally show ?thesis using True c by auto
  next
    case False
    with 2 show ?thesis by auto
  qed
qed

lemma py_strip_set: "set (py_strip s) \<subseteq> set s"
  by (auto simp: py_strip_def dest!: set_dropWhileD)

lemma sub_hspace_Nil_iff: "sub_hspace s = [] \<longleftrightarrow> s = []"
  by (cases s) auto

lemma sub_hspace_hd: "s \<noteq> [] \<Longrightarrow> hd s \<noteq> TAB \<Longrightarrow> hd (sub_hspace s) = hd s"
  by (cases s) auto

lemma sub_newlines_Nil_iff: "sub_newlines s = [] \<longleftrightarrow> s = []"
  by (cases s) auto

lemma sub_newlines_hd: "s \<noteq> [] \<Longrightarrow> hd (sub_newlines s) = hd s"
  by (cases s) (auto split: if_splits)

lemma hs_ok_append: "hs_ok (a @ b) \<Longrightarrow> hs_ok a \<and> hs_ok b"
  by (induction a) auto

lemma takeWhile_append_le: "length (takeWhile P a) \<le> length (takeWhile P (a @ b))"
  by (induction a) auto

lemma rev_dropWhile_rev_prefix:
  "t = rev (dropWhile P (rev t)) @ rev (takeWhile P (rev t))"
proof -
  have "rev (takeWhile P (rev t) @ dropWhile P (rev t)) = rev (rev t)"
    by (simp only: takeWhile_dropWhile_id)
  then show ?thesis by (simp only: rev_append rev_rev_ident)
qed

lemma nl_ok_append: "nl_ok (a @ b) \<Longrightarrow> nl_ok a \<and> nl_ok b"
proof (induction a)
  case Nil
  then show ?case by simp
next
  case (Cons c a)
  have "length (takeWhile (\<lambda>x. x = LF) (c # a)) \<le> length (takeWhile (\<lambda>x. x = LF) ((c # a) @ b))"
    by (rule takeWhile_append_le)
  with Cons show ?case by simp
qed

lemma py_strip_infix: "\<exists>a b. s = a @ py_strip s @ b"
proof -
  define t where "t = dropWhile py_isspace s"
  have 1: "s = takeWhile py_isspace s @ t" by (simp add: t_def)
  have 2: "t = py_strip s @ rev (takeWhile py_isspace (rev t))"
    using rev_dropWhile_rev_prefix [of t py_isspace] by (simp add: py_strip_def t_def)
  from 1 2 show ?thesis by metis
qed

lemma hs_ok_fix: "hs_ok s \<Longrightarrow> sub_hspace s = s"
proof (induction s)
  case Nil
  show ?case by simp
next
  case (Cons c cs)
  then have IH: "sub_hspace cs = cs" by simp
  from Cons.prems have "c = SP \<Longrightarrow> dropWhile (\<lambda>x. x = SP \<or> x = TAB) cs = cs"
    by (cases cs) auto
  with Cons.prems IH show ?case by auto
qed

lemma hs_ok_sub_hspace: "hs_ok (sub_hspace s)"
proof (induction s rule: sub_hspace.induct)
  case 1
  show ?case by simp
next
  case (2 c cs)
  show ?case
  proof (cases "c = SP \<or> c = TAB")
    case True
    let ?r = "dropWhile (\<lambda>x. x = SP \<or> x = TAB) cs"
    from True 2 have ok: "hs_ok (sub_hspace ?r)" by simp
    have "?r \<noteq> [] \<Longrightarrow> hd (sub_hspace ?r) \<noteq> SP"
      using hd_dropWhile [of "\<lambda>x. x = SP \<or> x = TAB" cs] sub_hspace_hd [of ?r] by auto
    with ok True show ?thesis by (auto simp: sub_hspace_Nil_iff)
  next
    case False
    with 2 have ok: "hs_ok (sub_hspace cs)" by simp
    with False show ?thesis by auto
  qed
qed

lemma hs_ok_sub_newlines: "hs_ok s \<Longrightarrow> hs_ok (sub_newlines s)"
proof (induction s rule: sub_newlines.induct)
  case 1
  show ?case by simp
next
  case (2 c cs)
  show ?case
  proof (cases "3 \<le> length (takeWhile (\<lambda>x. x = LF) (c # cs))")
    case True
    let ?r = "dropWhile (\<lambda>x. x = LF) cs"
    from "2.prems" have "hs_ok (takeWhile (\<lambda>x. x = LF) cs @ ?r)" by simp
    then have "hs_ok ?r" using hs_ok_append by blast
    with True 2 have "hs_ok (sub_newlines ?r)" by simp
    with True show ?thesis by simp
  next
    case False
    with 2 have ok: "hs_ok (sub_newlines cs)" by simp
    from "2.prems" have "\<not> (c = SP \<and> cs \<noteq> [] \<and> hd (sub_newlines cs) = SP)"
      by (auto simp: sub_newlines_hd)
    with False ok "2.prems" show ?thesis by (auto simp: sub_newlines_Nil_iff)
  qed
qed

lemma hs_ok_py_strip: "hs_ok s \<Longrightarrow> hs_ok (py_strip s)"
  using py_strip_infix [of s] hs_ok_append by metis

lemma nl_ok_py_strip: "nl_ok s \<Longrightarrow> nl_ok (py_strip s)"
  using py_strip_infix [of s] nl_ok_append by metis

lemma nl_ok_fix: "nl_ok s \<Longrightarrow> sub_newlines s = s"
proof (induction s)
  case Nil
  show ?case by simp
next
  case (Cons c cs)
  then have "sub_newlines cs = cs" by simp
  moreover from Cons.prems have "\<not> 3 \<le> length (takeWhile (\<lambda>x. x = LF) (c # cs))"
    by simp
  ultimately show ?case by (simp only: sub_newlines.simps if_False)
qed

lemma sub_newlines_after_run:
  "takeWhile (\<lambda>x. x = LF) (sub_newlines (dropWhile (\<lambda>x. x = LF) cs)) = []"
proof (cases "dropWhile (\<lambda>x. x = LF) cs")
  case Nil
  show ?thesis unfolding Nil by simp
next
  case (Cons d ds)
  then have "d \<noteq> LF" using hd_dropWhile [of "\<lambda>x. x = LF" cs] by auto
  moreover have "hd (sub_newlines (d # ds)) = d" using sub_newlines_hd [of "d # ds"] by simp
  moreover have "sub_newlines (d # ds) \<noteq> []" by (simp add: sub_newlines_Nil_iff)
  ultimately show ?thesis unfolding Cons by (cases "sub_newlines (d # ds)") auto
qed

lemma sub_newlines_run:
  "length (takeWhile (\<lambda>x. x = LF) (sub_newlines s)) \<le> length (takeWhile (\<lambda>x. x = LF) s)"
proof (induction s rule: sub_newlines.induct)
  case 1
  show ?case by simp
next
  case (2 c cs)
  show ?case
  proof (cases "3 \<le> length (takeWhile (\<lambda>x. x = LF) (c # cs))")
    case True
    then have "sub_newlines (c # cs) = LF # LF # sub_newlines (dropWhile (\<lambda>x. x = LF) cs)"
      by (simp only: sub_newlines.simps if_True)
    then have "length (takeWhile (\<lambda>x. x = LF) (sub_newlines (c # cs))) = 2"
      by (simp add: sub_newlines_after_run)
    with True show ?thesis by linarith
  next
    case False
    then have eq: "sub_newlines (c # cs) = c # sub_newlines cs"
      by (simp only: sub_newlines.simps if_False)
    from False 2 have
      "length (takeWhile (\<lambda>x. x = LF) (sub_newlines cs)) \<le> length (takeWhile (\<lambda>x. x = LF) cs)"
      by blast
    then show ?thesis unfolding eq by simp
  qed
qed

lemma nl_ok_sub_newlines: "nl_ok (sub_newlines s)"
proof (induction s rule: sub_newlines.induct)
  case 1
  show ?case by simp
next
  case (2 c cs)
  show ?case
  proof (cases "3 \<le> length (takeWhile (\<lambda>x. x = LF) (c # cs))")
    case True
    let ?r = "dropWhile (\<lambda>x. x = LF) cs"
    from True have eq: "sub_newlines (c # cs) = LF # LF # sub_newlines ?r"
      by (simp only: sub_newlines.simps if_True)
    from True 2 have ok: "nl_ok (sub_newlines ?r)" by blast
    show ?thesis unfolding eq using ok by (simp add: sub_newlines_after_run)
  next
    case False
    then have eq: "sub_newlines (c # cs) = c # sub_newlines cs"
      by (simp only: sub_newlines.simps if_False)
    from False 2 have ok: "nl_ok (sub_newlines cs)" by blast
    have "length (takeWhile (\<lambda>x. x = LF) (c # sub_newlines cs))
        \<le> length (takeWhile (\<lambda>x. x = LF) (c # cs))"
      using sub_newlines_run [of cs] by simp
    with False have "length (takeWhile (\<lambda>x. x = LF) (c # sub_newlines cs)) < 3" by linarith
    with ok show ?thesis unfolding eq by (simp only: nl_ok.simps simp_thms)
  qed
qed

lemma py_strip_ends:
  "py_strip s = [] \<or> (\<not> py_isspace (hd (py_strip s)) \<and> \<not> py_isspace (last (py_strip s)))"
proof (cases "py_strip s = []")
  case True
  then show ?thesis by simp
next
  case False
  define t where "t = dropWhile py_isspace s"
  define u where "u = dropWhile py_isspace (rev t)"
  have ps: "py_strip s = rev u" by (simp add: py_strip_def t_def u_def)
  with False have une: "u \<noteq> []" by simp
  then have tne: "t \<noteq> []" by (auto simp: u_def)
  have hd_u: "\<not> py_isspace (hd u)"
    using une hd_dropWhile [of py_isspace "rev t"] by (simp add: u_def)
  have hd_t: "\<not> py_isspace (hd t)"
    using tne hd_dropWhile [of py_isspace s] by (simp add: t_def)
  have "t = rev u @ rev (takeWhile py_isspace (rev t))"
    using rev_dropWhile_rev_prefix [of t py_isspace] by (simp add: u_def)
  moreover have "rev u \<noteq> []" using une by simp
  ultimately have "hd t = hd (rev u)" using hd_append2 [of "rev u"] by metis
  with hd_t hd_u une ps show ?thesis by (simp add: last_rev)
qed

lemma py_strip_fix:
  assumes "s = [] \<or> (\<not> py_isspace (hd s) \<and> \<not> py_isspace (last s))"
  shows "py_strip s = s"
proof (cases s rule: rev_cases)
  case Nil
  then show ?thesis by (simp add: py_strip_def)
next
  case (snoc ys y)
  with assms have h: "\<not> py_isspace (hd s)" and l: "\<not> py_isspace y" by auto
  from snoc have "s \<noteq> []" by simp
  with h have 1: "dropWhile py_isspace s = s" by (cases s) auto
  from snoc l have "dropWhile py_isspace (rev s) = rev s" by simp
  with 1 show ?thesis by (simp add: py_strip_def)
qed

lemma normalize_ws_props:
  "CR \<notin> set (normalize_ws x) \<and> hs_ok (normalize_ws x) \<and> nl_ok (normalize_ws x)"
proof -
  let ?a = "py_replace [CR] [LF] (py_replace [CR, LF] [LF] x)"
  have "CR \<notin> set ?a" using py_replace_single_set [of CR LF] by fastforce
  then have "CR \<notin> set (sub_hspace ?a)" using sub_hspace_set [of ?a] by auto
  then have "CR \<notin> set (sub_newlines (sub_hspace ?a))"
    using sub_newlines_set [of "sub_hspace ?a"] by auto
  then have 1: "CR \<notin> set (normalize_ws x)"
    using py_strip_set [of "sub_newlines (sub_hspace ?a)"] by (auto simp: normalize_ws_def)
  have 2: "hs_ok (normalize_ws x)"
    by (simp add: normalize_ws_def hs_ok_py_strip hs_ok_sub_newlines hs_ok_sub_hspace)
  have 3: "nl_ok (normalize_ws x)"
    by (simp add: normalize_ws_def nl_ok_py_strip nl_ok_sub_newlines)
  from 1 2 3 show ?thesis by simp
qed

lemma normalize_ws_fix:
  assumes "CR \<notin> set s" "hs_ok s" "nl_ok s"
    and "s = [] \<or> (\<not> py_isspace (hd s) \<and> \<not> py_isspace (last s))"
  shows "normalize_ws s = s"
proof -
  have "py_replace [CR, LF] [LF] s = s" using assms(1) by (simp add: py_replace_absent)
  moreover have "py_replace [CR] [LF] s = s" using assms(1) by (simp add: py_replace_absent)
  ultimately show ?thesis
    using assms by (simp add: normalize_ws_def hs_ok_fix nl_ok_fix py_strip_fix)
qed

lemma normalize_ws_idem: "normalize_ws (normalize_ws x) = normalize_ws x"
proof -
  have e: "normalize_ws x = [] \<or>
      (\<not> py_isspace (hd (normalize_ws x)) \<and> \<not> py_isspace (last (normalize_ws x)))"
    unfolding normalize_ws_def by (rule py_strip_ends)
  from normalize_ws_props [of x]
  have a: "CR \<notin> set (normalize_ws x)" and b: "hs_ok (normalize_ws x)"
    and c: "nl_ok (normalize_ws x)" by blast+
  show ?thesis by (rule normalize_ws_fix [OF a b c e])
qed

text \<open>
  \<^bold>\<open>C7\<close>. The text normaliser is idempotent: normalising a normalised text changes
  nothing, for every string.
\<close>

theorem normalize_ws_idempotent: "normalize_ws (normalize_ws x) = normalize_ws x"
  by (rule normalize_ws_idem)

theorem normalize_ws_idempotent_witness:
  "normalize_ws [SP, CHR ''a'', CR, LF, CR, LF, LF, LF, TAB, TAB, SP, CHR ''b'', CR, SP]
     = [CHR ''a'', LF, LF, SP, CHR ''b'']
   \<and> normalize_ws (normalize_ws [SP, CHR ''a'', CR, LF, CR, LF, LF, LF, TAB, TAB, SP, CHR ''b'', CR, SP])
     = [CHR ''a'', LF, LF, SP, CHR ''b'']"
proof -
  have v: "normalize_ws [SP, CHR ''a'', CR, LF, CR, LF, LF, LF, TAB, TAB, SP, CHR ''b'', CR, SP]
     = [CHR ''a'', LF, LF, SP, CHR ''b'']" by code_simp
  from normalize_ws_idempotent
    [of "[SP, CHR ''a'', CR, LF, CR, LF, LF, LF, TAB, TAB, SP, CHR ''b'', CR, SP]"]
  have "normalize_ws (normalize_ws [SP, CHR ''a'', CR, LF, CR, LF, LF, LF, TAB, TAB, SP, CHR ''b'', CR, SP])
     = [CHR ''a'', LF, LF, SP, CHR ''b'']" unfolding v .
  with v show ?thesis by blast
qed

section \<open>The chunker\<close>

lemma py_slice_nat:
  "a \<le> b \<Longrightarrow> b \<le> length s \<Longrightarrow> py_slice s (int a) (int b) = take (b - a) (drop a s)"
  by (simp add: py_slice_def Let_def min_def nat_diff_distrib')

lemma chunk_loop_last:
  assumes "s < length t" "length t \<le> s + C"
  shows "chunk_loop t (int C) (int Ov) (int s) acc = Some (acc @ [take C (drop s t)])"
proof -
  have "py_slice t (int s) (int (length t)) = take C (drop s t)"
    using assms by (simp add: py_slice_nat)
  moreover have "min (int (length t)) (int s + int C) = int (length t)"
    using assms by simp
  ultimately show ?thesis
    using assms by (subst chunk_loop.simps) (simp add: Let_def)
qed

lemma chunk_loop_step:
  assumes "Ov < C" "s + C < length t"
  shows "chunk_loop t (int C) (int Ov) (int s) acc
       = chunk_loop t (int C) (int Ov) (int (s + (C - Ov))) (acc @ [take C (drop s t)])"
proof -
  have "py_slice t (int s) (int s + int C) = take C (drop s t)"
    using assms py_slice_nat [of s "s + C" t] by simp
  moreover have "min (int (length t)) (int s + int C) = int s + int C"
    using assms by simp
  moreover have "max 0 (int s + int C - int Ov) = int (s + (C - Ov))"
    using assms by simp
  ultimately show ?thesis
    using assms by (subst chunk_loop.simps) (simp add: Let_def)
qed

lemma chunk_loop_closed:
  assumes "0 < C" "Ov < C" "s < length t"
  shows "\<exists>m. chunk_loop t (int C) (int Ov) (int s) acc
           = Some (acc @ map (\<lambda>k. take C (drop (s + k * (C - Ov)) t)) [0..<Suc m])
         \<and> length t \<le> s + m * (C - Ov) + C
         \<and> (\<forall>k<m. s + k * (C - Ov) + C < length t)"
  using assms(3)
proof (induction "length t - s" arbitrary: s acc rule: less_induct)
  case less
  show ?case
  proof (cases "length t \<le> s + C")
    case True
    with less.prems have "chunk_loop t (int C) (int Ov) (int s) acc = Some (acc @ [take C (drop s t)])"
      by (intro chunk_loop_last)
    with True show ?thesis by (intro exI [of _ 0]) simp
  next
    case False
    let ?d = "C - Ov"
    let ?s = "s + ?d"
    from False have lt: "s + C < length t" by simp
    with assms have s': "?s < length t" by simp
    from assms s' less.prems have "length t - ?s < length t - s" by simp
    from less.hyps [OF this s', of "acc @ [take C (drop s t)]"]
    obtain m where m: "chunk_loop t (int C) (int Ov) (int ?s) (acc @ [take C (drop s t)])
           = Some ((acc @ [take C (drop s t)]) @ map (\<lambda>k. take C (drop (?s + k * ?d) t)) [0..<Suc m])"
       and b1: "length t \<le> ?s + m * ?d + C"
       and b2: "\<forall>k<m. ?s + k * ?d + C < length t"
      by blast
    have "map (\<lambda>k. take C (drop (s + k * ?d) t)) [0..<Suc (Suc m)]
        = take C (drop s t) # map (\<lambda>k. take C (drop (?s + k * ?d) t)) [0..<Suc m]"
      by (subst map_upt_Suc) (simp add: add.assoc)
    with m chunk_loop_step [OF assms(2) lt, of acc]
    have 1: "chunk_loop t (int C) (int Ov) (int s) acc
           = Some (acc @ map (\<lambda>k. take C (drop (s + k * ?d) t)) [0..<Suc (Suc m)])"
      by simp
    have 2: "length t \<le> s + Suc m * ?d + C" using b1 by (simp add: add.assoc add.commute)
    have 3: "\<forall>k<Suc m. s + k * ?d + C < length t"
    proof (intro allI impI)
      fix k assume "k < Suc m"
      show "s + k * ?d + C < length t"
      proof (cases k)
        case 0
        with lt show ?thesis by simp
      next
        case (Suc j)
        with \<open>k < Suc m\<close> b2 have "?s + j * ?d + C < length t" by simp
        with Suc show ?thesis by (simp add: add.assoc add.commute)
      qed
    qed
    from 1 2 3 show ?thesis by blast
  qed
qed

lemma chunk_loop_never_returns:
  assumes ret: "chunk_loop t C Ov start acc = Some r"
  shows "\<not> (start = 0 \<and> 0 < C \<and> C \<le> Ov \<and> C < int (length t))"
proof (rule chunk_loop.raw_induct
    [where P = "\<lambda>t C Ov start acc r. \<not> (start = 0 \<and> 0 < C \<and> C \<le> Ov \<and> C < int (length t))",
      OF _ ret])
  fix f t C Ov start acc r
  assume IH: "\<And>t C Ov start acc r. f t C Ov start acc = Some r
      \<Longrightarrow> \<not> (start = 0 \<and> 0 < C \<and> C \<le> Ov \<and> C < int (length t))"
    and eq: "(if start < int (length t) then
        (let end = min (int (length t)) (start + C);
             chunks' = acc @ [py_slice t start end]
         in if end = int (length t) then Some chunks'
            else f t C Ov (max 0 (end - Ov)) chunks')
      else Some acc) = Some r"
  show "\<not> (start = 0 \<and> 0 < C \<and> C \<le> Ov \<and> C < int (length t))"
  proof
    assume st: "start = 0 \<and> 0 < C \<and> C \<le> Ov \<and> C < int (length t)"
    then have s0: "start = 0" and c: "0 < C" "C \<le> Ov" "C < int (length t)" by simp_all
    from c have "min (int (length t)) C = C" and "max 0 (C - Ov) = 0"
      and "C \<noteq> int (length t)" and "t \<noteq> []" by auto
    with eq have "f t C Ov 0 (acc @ [py_slice t 0 C]) = Some r"
      unfolding s0 by (simp add: Let_def)
    from IH [OF this] st show False by simp
  qed
qed

lemma chunk_text_diverges_general:
  assumes "0 < C" "C \<le> Ov" "C < int (length (normalize_ws t))"
  shows "chunk_text t C Ov = None"
proof (cases "chunk_text t C Ov")
  case None
  then show ?thesis .
next
  case (Some r)
  from assms have "normalize_ws t \<noteq> []" by auto
  with Some have "chunk_loop (normalize_ws t) C Ov 0 [] = Some r"
    by (simp add: chunk_text_def Let_def)
  from chunk_loop_never_returns [OF this] assms show ?thesis by simp
qed

text \<open>
  \<^bold>\<open>C2\<close> asks that \<^verbatim>\<open>chunk_text\<close> terminate for every chunk size \<open>C \<ge> 1\<close> and
  overlap \<open>Ov \<ge> 0\<close>, also when \<open>Ov \<ge> C\<close>. The loop has no such guard: with
  \<open>C \<le> Ov\<close> and a normalised text longer than \<open>C\<close> the start offset stays at 0 (line 70
  clamps \<open>end - overlap\<close> to 0) and the loop never returns, as for the text \<open>ab\<close> with
  chunk size 1 and overlap 1.
\<close>

theorem chunk_text_overlap_ge_size_diverges: "chunk_text ''ab'' 1 1 = None"
proof -
  have "normalize_ws ''ab'' = ''ab''" by code_simp
  then show ?thesis by (intro chunk_text_diverges_general) simp_all
qed

lemma chunk_text_closed:
  fixes C Ov :: nat
  assumes "0 < C" "Ov < C" "normalize_ws text \<noteq> []"
  shows "\<exists>m. chunk_text text (int C) (int Ov)
           = Some (map (\<lambda>k. take C (drop (k * (C - Ov)) (normalize_ws text))) [0..<Suc m])
         \<and> length (normalize_ws text) \<le> m * (C - Ov) + C
         \<and> (\<forall>k<m. k * (C - Ov) + C < length (normalize_ws text))"
proof -
  from assms(3) have "0 < length (normalize_ws text)" by simp
  from chunk_loop_closed [OF assms(1,2) this, of "[]"] assms(3)
  show ?thesis by (simp add: chunk_text_def Let_def)
qed

lemma chunk_text_empty:
  "normalize_ws text = [] \<Longrightarrow> chunk_text text C Ov = Some []"
  by (simp add: chunk_text_def)

lemma window_start_in_text:
  fixes C Ov m L :: nat
  assumes "Ov < C" "0 < L" "\<forall>k<m. k * (C - Ov) + C < L" "i \<le> m"
  shows "i * (C - Ov) < L"
proof (cases i)
  case 0
  with assms show ?thesis by simp
next
  case (Suc j)
  with assms have "j * (C - Ov) + C < L" by simp
  moreover have "Suc j * (C - Ov) \<le> j * (C - Ov) + C" by simp
  ultimately show ?thesis unfolding Suc by linarith
qed

lemma ceiling_between:
  fixes m d x :: nat
  assumes d: "0 < d" and lo: "m * d < x" and up: "x \<le> Suc m * d"
  shows "\<lceil>real x / real d\<rceil> = int (Suc m)"
proof (rule ceiling_unique)
  from lo have "real (m * d) < real x" by (simp only: of_nat_less_iff)
  then have "real m < real x / real d" using d by (simp add: pos_less_divide_eq)
  then show "real_of_int (int (Suc m)) - 1 < real x / real d" by simp
  from up have "real x \<le> real (Suc m * d)" by (simp only: of_nat_le_iff)
  then have "real x / real d \<le> real (Suc m)" using d
    by (simp add: pos_divide_le_eq algebra_simps)
  then show "real x / real d \<le> real_of_int (int (Suc m))" by simp
qed

lemma window_count:
  fixes C Ov m L :: nat
  assumes "Ov < C" "0 < L" "L \<le> m * (C - Ov) + C" "\<forall>k<m. k * (C - Ov) + C < L"
  shows "int (Suc m) = (if Ov < L then \<lceil>real (L - Ov) / real (C - Ov)\<rceil> else 1)"
proof (cases "Ov < L")
  case False
  have "m = 0"
  proof (rule ccontr)
    assume "m \<noteq> 0"
    with assms(4) have "0 * (C - Ov) + C < L" by blast
    with False assms(1) show False by simp
  qed
  with False show ?thesis by simp
next
  case True
  let ?d = "C - Ov"
  have d: "0 < ?d" using assms(1) by simp
  have up: "L - Ov \<le> Suc m * ?d" using assms(1,3) by simp
  have lo: "m * ?d < L - Ov"
  proof (cases m)
    case 0
    with True show ?thesis by simp
  next
    case (Suc j)
    with assms(4) have "j * ?d + C < L" by simp
    with assms(1) Suc show ?thesis by simp
  qed
  have "\<lceil>real (L - Ov) / real ?d\<rceil> = int (Suc m)"
    using d lo up by (rule ceiling_between)
  with True show ?thesis by simp
qed

lemma window_cover:
  fixes C Ov m L p :: nat
  assumes "Ov < C" "L \<le> m * (C - Ov) + C" "p < L"
  shows "\<exists>i\<le>m. i * (C - Ov) \<le> p \<and> p < min L (i * (C - Ov) + C)"
proof (cases "p div (C - Ov) \<le> m")
  case True
  let ?d = "C - Ov"
  have d: "0 < ?d" using assms(1) by simp
  have "p div ?d * ?d \<le> p" by simp
  moreover have "p < p div ?d * ?d + ?d" using d
    by (metis add.commute dividend_less_div_times)
  moreover have "?d \<le> C" by simp
  ultimately have "p div ?d * ?d \<le> p \<and> p < min L (p div ?d * ?d + C)"
    using assms(3) by simp
  with True show ?thesis by blast
next
  case False
  let ?d = "C - Ov"
  from False have "Suc m \<le> p div ?d" by simp
  then have "Suc m * ?d \<le> p div ?d * ?d" by (rule mult_le_mono1)
  also have "\<dots> \<le> p" by simp
  finally have "m * ?d \<le> p" by simp
  with assms(2,3) show ?thesis by (intro exI [of _ m]) simp
qed

lemma window_as_slice:
  fixes C k d :: nat
  assumes "k * d < length t"
  shows "take C (drop (k * d) t) = take (min (length t) (k * d + C) - k * d) (drop (k * d) t)"
proof (cases "k * d + C \<le> length t")
  case True
  then show ?thesis by (simp add: min_def)
next
  case False
  then have "min (length t) (k * d + C) = length t" by simp
  moreover from False have "length (drop (k * d) t) \<le> C" by simp
  ultimately show ?thesis by simp
qed

text \<open>
  \<^bold>\<open>C1\<close>. For a chunk size \<open>C > 0\<close> and an overlap \<open>0 \<le> Ov < C\<close>, \<^verbatim>\<open>chunk_text\<close>
  returns, and its chunks are the windows \<open>[los ! i, his ! i)\<close> of the normalised text
  (of length \<open>L\<close>): the first window starts at offset 0, each next one starts at the
  previous end minus \<open>Ov\<close>, every chunk but the last has length exactly \<open>C\<close>, the last
  window ends at \<open>L\<close>, consecutive windows share exactly the \<open>Ov\<close> positions from the
  start of the later one to the end of the earlier one, every position of the text lies
  in some window, and there are \<open>\<lceil>(L - Ov) / (C - Ov)\<rceil>\<close> chunks when \<open>L > Ov\<close> and one
  otherwise. An input whose normalised text is empty yields no chunk.
\<close>

theorem chunk_text_windows:
  fixes C Ov :: nat
  assumes "0 < C" and "Ov < C"
  shows "\<exists>cs los his.
      chunk_text text (int C) (int Ov) = Some cs
    \<and> length los = length cs \<and> length his = length cs
    \<and> (normalize_ws text = [] \<longrightarrow> cs = [])
    \<and> (normalize_ws text \<noteq> [] \<longrightarrow>
          cs \<noteq> []
        \<and> los ! 0 = 0
        \<and> last his = length (normalize_ws text)
        \<and> (\<forall>i<length cs. los ! i < his ! i \<and> his ! i \<le> length (normalize_ws text)
              \<and> cs ! i = take (his ! i - los ! i) (drop (los ! i) (normalize_ws text)))
        \<and> (\<forall>i. Suc i < length cs \<longrightarrow>
                los ! Suc i + Ov = his ! i \<and> length (cs ! i) = C
              \<and> los ! i \<le> los ! Suc i \<and> his ! i < his ! Suc i)
        \<and> (\<forall>p<length (normalize_ws text). \<exists>i<length cs. los ! i \<le> p \<and> p < his ! i)
        \<and> int (length cs) =
            (if Ov < length (normalize_ws text)
             then \<lceil>real (length (normalize_ws text) - Ov) / real (C - Ov)\<rceil> else 1))"
proof (cases "normalize_ws text = []")
  case True
  then have "chunk_text text (int C) (int Ov) = Some []" by (rule chunk_text_empty)
  with True show ?thesis by (intro exI [of _ "[]"]) simp
next
  case False
  define t where "t = normalize_ws text"
  define d where "d = C - Ov"
  define L where "L = length t"
  from chunk_text_closed [OF assms False] obtain m
    where ret: "chunk_text text (int C) (int Ov) = Some (map (\<lambda>k. take C (drop (k * d) t)) [0..<Suc m])"
      and up: "L \<le> m * d + C" and non_last: "\<forall>k<m. k * d + C < L"
    unfolding t_def d_def L_def by blast
  define cs where "cs = map (\<lambda>k. take C (drop (k * d) t)) [0..<Suc m]"
  define los where "los = map (\<lambda>k. k * d) [0..<Suc m]"
  define his where "his = map (\<lambda>k. min L (k * d + C)) [0..<Suc m]"
  have dpos: "0 < d" and dC: "d + Ov = C" using assms by (simp_all add: d_def)
  have Lpos: "0 < L" using False by (simp add: L_def t_def)
  have len: "length cs = Suc m" "length los = Suc m" "length his = Suc m"
    by (simp_all add: cs_def los_def his_def)
  have nth: "cs ! i = take C (drop (i * d) t)" "los ! i = i * d" "his ! i = min L (i * d + C)"
    if "i \<le> m" for i
    using that unfolding cs_def los_def his_def
    by (simp_all only: nth_map_upt less_Suc_eq_le diff_zero add_0 minus_nat.diff_0)
  have start_in: "i * d < L" if "i \<le> m" for i
    using window_start_in_text [OF assms(2) Lpos, of m i] non_last that
    by (simp add: d_def)
  have a: "los ! 0 = 0" using nth(2) [of 0] by simp
  have b: "last his = L"
  proof -
    have "his \<noteq> []" using len(3) by auto
    then have "last his = his ! (length his - 1)" by (rule last_conv_nth)
    then have "last his = his ! m" by (simp only: len(3) diff_Suc_1)
    with nth(3) [of m] up show ?thesis by simp
  qed
  have c: "\<forall>i<length cs. los ! i < his ! i \<and> his ! i \<le> L
      \<and> cs ! i = take (his ! i - los ! i) (drop (los ! i) t)"
  proof (intro allI impI)
    fix i assume "i < length cs"
    then have i: "i \<le> m" using len by simp
    from start_in [OF i] assms(1) have "i * d < min L (i * d + C)" by simp
    moreover have "take C (drop (i * d) t) = take (min L (i * d + C) - i * d) (drop (i * d) t)"
      using start_in [OF i] unfolding L_def by (rule window_as_slice)
    ultimately show "los ! i < his ! i \<and> his ! i \<le> L
      \<and> cs ! i = take (his ! i - los ! i) (drop (los ! i) t)"
      by (simp add: nth [OF i])
  qed
  have e: "\<forall>i. Suc i < length cs \<longrightarrow>
        los ! Suc i + Ov = his ! i \<and> length (cs ! i) = C
      \<and> los ! i \<le> los ! Suc i \<and> his ! i < his ! Suc i"
  proof (intro allI impI)
    fix i assume "Suc i < length cs"
    then have i: "i < m" "i \<le> m" "Suc i \<le> m" using len by simp_all
    from non_last i(1) have full: "i * d + C < L" by simp
    then have 1: "his ! i = i * d + C" by (simp add: nth(3) [OF i(2)])
    have 2: "los ! Suc i + Ov = i * d + C"
      using dC by (simp add: nth(2) [OF i(3)] add.assoc add.commute)
    have 3: "length (cs ! i) = C" using full by (simp add: nth(1) [OF i(2)] L_def)
    have 4: "los ! i \<le> los ! Suc i" by (simp add: nth(2) [OF i(2)] nth(2) [OF i(3)])
    have 5: "his ! i < his ! Suc i" using full dpos by (simp add: 1 nth(3) [OF i(3)])
    from 1 2 3 4 5 show "los ! Suc i + Ov = his ! i \<and> length (cs ! i) = C
      \<and> los ! i \<le> los ! Suc i \<and> his ! i < his ! Suc i" by simp
  qed
  have f: "\<forall>p<L. \<exists>i<length cs. los ! i \<le> p \<and> p < his ! i"
  proof (intro allI impI)
    fix p assume "p < L"
    from window_cover [OF assms(2) _ this, of m] up
    obtain i where i: "i \<le> m" and "i * d \<le> p \<and> p < min L (i * d + C)"
      unfolding d_def by blast
    then have "los ! i \<le> p \<and> p < his ! i" by (simp add: nth [OF i])
    moreover from i have "i < length cs" by (simp add: len)
    ultimately show "\<exists>i<length cs. los ! i \<le> p \<and> p < his ! i" by blast
  qed
  have g: "int (length cs) = (if Ov < L then \<lceil>real (L - Ov) / real (C - Ov)\<rceil> else 1)"
    using window_count [OF assms(2) Lpos, of m] up non_last unfolding len d_def by blast
  have "chunk_text text (int C) (int Ov) = Some cs" using ret by (simp add: cs_def)
  moreover have "cs \<noteq> []" using len by auto
  ultimately show ?thesis
    using len a b c e f g False unfolding L_def t_def
    by (intro exI [of _ cs] exI [of _ los] exI [of _ his]) simp
qed

theorem chunk_text_windows_witness:
  "(0::nat) < 4 \<and> (1::nat) < 4
   \<and> normalize_ws ''abcdefghij'' = ''abcdefghij''
   \<and> chunk_text ''abcdefghij'' (int 4) (int 1) = Some [''abcd'', ''defg'', ''ghij'']
   \<and> int (length [''abcd'', ''defg'', ''ghij''])
       = \<lceil>real (length ''abcdefghij'' - 1) / real (4 - (1::nat))\<rceil>"
proof -
  have n: "normalize_ws ''abcdefghij'' = ''abcdefghij''" by code_simp
  have v: "chunk_text ''abcdefghij'' (int 4) (int 1) = Some [''abcd'', ''defg'', ''ghij'']"
    by code_simp
  have h1: "(0::nat) < 4" and h2: "(1::nat) < 4" by simp_all
  from chunk_text_windows [OF h1 h2, of "''abcdefghij''"] obtain cs where
    cs: "chunk_text ''abcdefghij'' (int 4) (int 1) = Some cs" and
    cnt: "normalize_ws ''abcdefghij'' \<noteq> [] \<longrightarrow> int (length cs) =
            (if 1 < length (normalize_ws ''abcdefghij'')
             then \<lceil>real (length (normalize_ws ''abcdefghij'') - 1) / real (4 - (1::nat))\<rceil>
             else 1)"
    by blast
  from cs v have "cs = [''abcd'', ''defg'', ''ghij'']" by simp
  with cnt have "int (length [''abcd'', ''defg'', ''ghij''])
       = \<lceil>real (length ''abcdefghij'' - 1) / real (4 - (1::nat))\<rceil>"
    unfolding n by simp
  with n v h1 h2 show ?thesis by blast
qed

text \<open>
  \<^bold>\<open>C6\<close>. For \<open>C > 0\<close> and \<open>0 \<le> Ov < C\<close>, in every pair of consecutive chunks that
  \<^verbatim>\<open>chunk_text\<close> returns, the last \<open>Ov\<close> characters of the earlier chunk are the first
  \<open>Ov\<close> characters of the later one (both chunks have at least \<open>Ov\<close> characters).
\<close>

theorem chunk_text_overlap_identical:
  fixes C Ov :: nat
  assumes "0 < C" and "Ov < C"
  shows "\<exists>cs. chunk_text text (int C) (int Ov) = Some cs
    \<and> (\<forall>i. Suc i < length cs \<longrightarrow>
          Ov \<le> length (cs ! i) \<and> Ov \<le> length (cs ! Suc i)
        \<and> drop (length (cs ! i) - Ov) (cs ! i) = take Ov (cs ! Suc i))"
proof (cases "normalize_ws text = []")
  case True
  then have "chunk_text text (int C) (int Ov) = Some []" by (rule chunk_text_empty)
  then show ?thesis by simp
next
  case False
  define t where "t = normalize_ws text"
  define d where "d = C - Ov"
  from chunk_text_closed [OF assms False] obtain m
    where ret: "chunk_text text (int C) (int Ov) = Some (map (\<lambda>k. take C (drop (k * d) t)) [0..<Suc m])"
      and non_last: "\<forall>k<m. k * d + C < length t"
    unfolding t_def d_def by blast
  define cs where "cs = map (\<lambda>k. take C (drop (k * d) t)) [0..<Suc m]"
  have dC: "d + Ov = C" "C - Ov = d" "C - d = Ov" using assms by (simp_all add: d_def)
  have len: "length cs = Suc m" by (simp add: cs_def)
  have nth: "cs ! i = take C (drop (i * d) t)" if "i \<le> m" for i
    using that unfolding cs_def
    by (simp only: nth_map_upt less_Suc_eq_le diff_zero add_0 minus_nat.diff_0)
  have "Ov \<le> length (cs ! i) \<and> Ov \<le> length (cs ! Suc i)
        \<and> drop (length (cs ! i) - Ov) (cs ! i) = take Ov (cs ! Suc i)"
    if "Suc i < length cs" for i
  proof -
    from that have i: "i < m" "i \<le> m" "Suc i \<le> m" using len by simp_all
    from non_last i(1) have full: "i * d + C < length t" by simp
    have l1: "length (cs ! i) = C" using full by (simp add: nth [OF i(2)])
    have "Suc i * d + Ov = i * d + C" using dC(1) by (simp add: add.assoc add.commute)
    with full have "Ov \<le> length t - Suc i * d" by linarith
    then have l2: "Ov \<le> length (cs ! Suc i)" using assms(2) by (simp add: nth [OF i(3)])
    have "drop (C - Ov) (take C (drop (i * d) t)) = take Ov (drop (Suc i * d) t)"
      by (simp add: drop_take dC add.commute)
    moreover have "take Ov (take C (drop (Suc i * d) t)) = take Ov (drop (Suc i * d) t)"
      using assms(2) by (simp add: min_def)
    ultimately have "drop (C - Ov) (cs ! i) = take Ov (cs ! Suc i)"
      by (simp only: nth [OF i(2)] nth [OF i(3)])
    then have "drop (length (cs ! i) - Ov) (cs ! i) = take Ov (cs ! Suc i)"
      by (simp only: l1)
    with l1 l2 assms(2) show ?thesis by simp
  qed
  moreover have "chunk_text text (int C) (int Ov) = Some cs" using ret by (simp add: cs_def)
  ultimately show ?thesis by blast
qed

theorem chunk_text_overlap_identical_witness:
  "(0::nat) < 4 \<and> (1::nat) < 4
   \<and> chunk_text ''abcdefghij'' (int 4) (int 1) = Some [''abcd'', ''defg'', ''ghij'']
   \<and> drop (length ''abcd'' - 1) ''abcd'' = take 1 ''defg''
   \<and> drop (length ''defg'' - 1) ''defg'' = take 1 ''ghij''"
proof -
  have v: "chunk_text ''abcdefghij'' (int 4) (int 1) = Some [''abcd'', ''defg'', ''ghij'']"
    by code_simp
  have h1: "(0::nat) < 4" and h2: "(1::nat) < 4" by simp_all
  from chunk_text_overlap_identical [OF h1 h2, of "''abcdefghij''"]
  have ov: "\<forall>i. Suc i < length [''abcd'', ''defg'', ''ghij''] \<longrightarrow>
      drop (length ([''abcd'', ''defg'', ''ghij''] ! i) - 1) ([''abcd'', ''defg'', ''ghij''] ! i)
      = take 1 ([''abcd'', ''defg'', ''ghij''] ! Suc i)"
    unfolding v by simp
  from ov [rule_format, of 0] have a: "drop (length ''abcd'' - 1) ''abcd'' = take 1 ''defg''"
    by simp
  from ov [rule_format, of 1] have b: "drop (length ''defg'' - 1) ''defg'' = take 1 ''ghij''"
    by simp
  from v h1 h2 a b show ?thesis by blast
qed

lemma concat_windows:
  "concat (map (\<lambda>k. take d (drop (a + k * d) t)) [0..<m]) = take (m * d) (drop a t)"
proof (induction m)
  case 0
  show ?case by simp
next
  case (Suc m)
  have "take (m * d + d) (drop a t) = take (m * d) (drop a t) @ take d (drop (m * d) (drop a t))"
    by (rule take_add)
  moreover have "Suc m * d = m * d + d" by simp
  moreover have "drop (m * d) (drop a t) = drop (a + m * d) t" by (simp add: add.commute)
  ultimately have "take (Suc m * d) (drop a t)
      = take (m * d) (drop a t) @ take d (drop (a + m * d) t)" by (simp only:)
  moreover have "concat (map (\<lambda>k. take d (drop (a + k * d) t)) [0..<Suc m])
      = concat (map (\<lambda>k. take d (drop (a + k * d) t)) [0..<m]) @ take d (drop (a + m * d) t)"
    by simp
  ultimately show ?case using Suc by (simp only:)
qed

text \<open>
  \<^bold>\<open>C10\<close>. \<^verbatim>\<open>chunk_text\<close> normalises its input before chunking: chunking a text
  and chunking its normalisation give the same result, for all parameters; and for
  \<open>C > 0\<close>, \<open>0 \<le> Ov < C\<close> the chunks cover the normalised text, not the raw input: the
  first chunk followed by the later chunks without their first \<open>Ov\<close> characters is the
  normalised text.
\<close>

theorem chunk_text_normalizes_input:
  "chunk_text t C Ov = chunk_text (normalize_ws t) C Ov
   \<and> (0 < C \<and> 0 \<le> Ov \<and> Ov < C \<longrightarrow>
        (\<exists>cs. chunk_text t C Ov = Some cs
           \<and> (if cs = [] then normalize_ws t = []
               else hd cs @ concat (map (drop (nat Ov)) (tl cs)) = normalize_ws t)))"
proof
  show "chunk_text t C Ov = chunk_text (normalize_ws t) C Ov"
    by (simp add: chunk_text_def normalize_ws_idem)
next
  show "0 < C \<and> 0 \<le> Ov \<and> Ov < C \<longrightarrow>
        (\<exists>cs. chunk_text t C Ov = Some cs
           \<and> (if cs = [] then normalize_ws t = []
               else hd cs @ concat (map (drop (nat Ov)) (tl cs)) = normalize_ws t))"
  proof
    assume h: "0 < C \<and> 0 \<le> Ov \<and> Ov < C"
    define c where "c = nat C"
    define v where "v = nat Ov"
    define d where "d = c - v"
    define u where "u = normalize_ws t"
    from h have cv: "0 < c" "v < c" "C = int c" "Ov = int v" by (simp_all add: c_def v_def)
    show "\<exists>cs. chunk_text t C Ov = Some cs
           \<and> (if cs = [] then normalize_ws t = []
               else hd cs @ concat (map (drop (nat Ov)) (tl cs)) = normalize_ws t)"
    proof (cases "normalize_ws t = []")
      case True
      then have "chunk_text t C Ov = Some []" by (rule chunk_text_empty)
      with True show ?thesis by simp
    next
      case False
      from chunk_text_closed [OF cv(1,2) False] obtain m
        where ret: "chunk_text t C Ov = Some (map (\<lambda>k. take c (drop (k * d) u)) [0..<Suc m])"
          and up: "length u \<le> m * d + c"
        unfolding cv(3,4) d_def u_def by blast
      define cs where "cs = map (\<lambda>k. take c (drop (k * d) u)) [0..<Suc m]"
      have cs: "cs = take c u # map (\<lambda>k. take c (drop (Suc k * d) u)) [0..<m]"
        unfolding cs_def by (subst map_upt_Suc) simp
      have "drop v (take c (drop (Suc k * d) u)) = take d (drop (c + k * d) u)" for k
      proof -
        have "v + Suc k * d = c + k * d" using cv(2) by (simp add: d_def)
        then show ?thesis by (simp add: drop_take d_def add.commute)
      qed
      then have "concat (map (drop v) (tl cs)) = concat (map (\<lambda>k. take d (drop (c + k * d) u)) [0..<m])"
        by (simp add: cs comp_def)
      also have "\<dots> = take (m * d) (drop c u)" by (rule concat_windows)
      finally have "hd cs @ concat (map (drop v) (tl cs)) = take c u @ take (m * d) (drop c u)"
        by (simp add: cs)
      also have "\<dots> = take (c + m * d) u" by (simp add: take_add)
      also have "\<dots> = u" using up by simp
      finally have "hd cs @ concat (map (drop (nat Ov)) (tl cs)) = normalize_ws t"
        by (simp add: v_def u_def)
      moreover have "cs \<noteq> []" by (simp add: cs)
      moreover have "chunk_text t C Ov = Some cs" using ret by (simp add: cs_def)
      ultimately show ?thesis by auto
    qed
  qed
qed

theorem chunk_text_normalizes_input_witness:
  "normalize_ws '' ab   cdefghij '' = ''ab cdefghij''
   \<and> chunk_text '' ab   cdefghij '' 4 1 = chunk_text ''ab cdefghij'' 4 1
   \<and> chunk_text '' ab   cdefghij '' 4 1 = Some [''ab c'', ''cdef'', ''fghi'', ''ij'']
   \<and> ''ab c'' @ concat (map (drop (nat 1)) [''cdef'', ''fghi'', ''ij'']) = ''ab cdefghij''"
proof -
  have n: "normalize_ws '' ab   cdefghij '' = ''ab cdefghij''" by code_simp
  have v: "chunk_text '' ab   cdefghij '' 4 1 = Some [''ab c'', ''cdef'', ''fghi'', ''ij'']"
    by code_simp
  from chunk_text_normalizes_input [of "'' ab   cdefghij ''" 4 1]
  have e: "chunk_text '' ab   cdefghij '' 4 1 = chunk_text ''ab cdefghij'' 4 1"
    and g: "''ab c'' @ concat (map (drop (nat 1)) [''cdef'', ''fghi'', ''ij'']) = ''ab cdefghij''"
    unfolding n v by simp_all
  from n v e g show ?thesis by blast
qed

section \<open>The query\<close>

lemma contexts_of_no_valid:
  "filter (\<lambda>i. 0 \<le> i) idxs = [] \<Longrightarrow> contexts_of ms idxs = Inr []"
  by (induction idxs) (auto split: if_splits)

lemma contexts_of_in_range:
  "\<forall>i\<in>set idxs. i < int (length ms) \<Longrightarrow>
   contexts_of ms idxs = Inr (map (\<lambda>i. ms ! nat i) (filter (\<lambda>i. 0 \<le> i) idxs))"
  by (induction idxs) auto

text \<open>
  \<^bold>\<open>C4\<close>. In the ready state (an index is loaded), for every question: when the index
  search yields no non-negative index, \<^verbatim>\<open>query\<close> returns exactly the string
  \<^verbatim>\<open>I don't know (not in RAG folder).\<close> and makes no call to the answer client (its only
  calls are the embedding and the search); otherwise, the indices being positions of
  the metadata list as the index's contract says, it returns the answer client's
  response for the records at the non-negative indices, in order.
\<close>

theorem query_fallback_or_answer:
  assumes "p_index p = Some ix"
  shows "(filter (\<lambda>i. 0 \<le> i) (index_search ev ix (embed_one ev question) (top_k cfg)) = [] \<longrightarrow>
            query cfg ev p question
              = (Inr ''I don't know (not in RAG folder).'',
                 [EmbedCall question, SearchCall (top_k cfg)])
          \<and> (\<forall>q cs. AnswerCall q cs \<notin> set (snd (query cfg ev p question))))
       \<and> (filter (\<lambda>i. 0 \<le> i) (index_search ev ix (embed_one ev question) (top_k cfg)) \<noteq> []
          \<and> (\<forall>i\<in>set (index_search ev ix (embed_one ev question) (top_k cfg)).
                i < int (length (p_meta p))) \<longrightarrow>
            fst (query cfg ev p question)
              = Inr (qa_answer ev question
                   (map (\<lambda>i. p_meta p ! nat i)
                      (filter (\<lambda>i. 0 \<le> i)
                         (index_search ev ix (embed_one ev question) (top_k cfg))))))"
proof (intro conjI impI)
  let ?idxs = "index_search ev ix (embed_one ev question) (top_k cfg)"
  assume "filter (\<lambda>i. 0 \<le> i) ?idxs = []"
  then have c: "contexts_of (p_meta p) ?idxs = Inr []" by (rule contexts_of_no_valid)
  with assms show q: "query cfg ev p question
      = (Inr ''I don't know (not in RAG folder).'', [EmbedCall question, SearchCall (top_k cfg)])"
    by (simp add: query_def Let_def fallback_answer_def)
  show "\<forall>q cs. AnswerCall q cs \<notin> set (snd (query cfg ev p question))"
    unfolding q by simp
next
  let ?idxs = "index_search ev ix (embed_one ev question) (top_k cfg)"
  assume a: "filter (\<lambda>i. 0 \<le> i) ?idxs \<noteq> [] \<and> (\<forall>i\<in>set ?idxs. i < int (length (p_meta p)))"
  then have "contexts_of (p_meta p) ?idxs
      = Inr (map (\<lambda>i. p_meta p ! nat i) (filter (\<lambda>i. 0 \<le> i) ?idxs))"
    by (intro contexts_of_in_range) simp
  with assms a show "fst (query cfg ev p question)
      = Inr (qa_answer ev question (map (\<lambda>i. p_meta p ! nat i) (filter (\<lambda>i. 0 \<le> i) ?idxs)))"
    by (simp add: query_def Let_def)
qed

theorem query_fallback_or_answer_witness:
  "query default_config (test_env [- 1, - 1]) \<lparr>p_index = Some [3], p_meta = []\<rparr> ''how many?''
     = (Inr ''I don't know (not in RAG folder).'', [EmbedCall ''how many?'', SearchCall 10])
   \<and> fst (query default_config (test_env [- 1, 0])
        \<lparr>p_index = Some [3],
         p_meta = [\<lparr>m_source = ''/data/t.csv'', m_rel = ''t.csv'', m_file_type = ''csv'',
                   m_page = None, m_sheet = None, m_row = Some 1, m_chunk_id = 0,
                   m_tag = ''[file:t.csv row001 c000]'', m_text = ''answer | 42''\<rparr>]\<rparr>
        ''how many?'')
     = Inr ''42 [file:t.csv row001 c000]''"
proof -
  define rec where "rec = \<lparr>m_source = ''/data/t.csv'', m_rel = ''t.csv'', m_file_type = ''csv'',
                   m_page = None, m_sheet = None, m_row = Some 1, m_chunk_id = 0,
                   m_tag = ''[file:t.csv row001 c000]'', m_text = ''answer | 42''\<rparr>"
  have i1: "p_index \<lparr>p_index = Some [3::nat], p_meta = []\<rparr> = Some [3]" by simp
  have i2: "p_index \<lparr>p_index = Some [3::nat], p_meta = [rec]\<rparr> = Some [3]" by simp
  have a: "py_strip '' 42 [file:t.csv row001 c000] '' = ''42 [file:t.csv row001 c000]''"
    by code_simp
  from query_fallback_or_answer [OF i1, of "test_env [- 1, - 1]" "''how many?''" default_config]
  have 1: "query default_config (test_env [- 1, - 1]) \<lparr>p_index = Some [3], p_meta = []\<rparr> ''how many?''
     = (Inr ''I don't know (not in RAG folder).'', [EmbedCall ''how many?'', SearchCall 10])"
    by (simp add: test_env_def default_config_def)
  from query_fallback_or_answer [OF i2, of "test_env [- 1, 0]" "''how many?''" default_config]
  have 2: "fst (query default_config (test_env [- 1, 0]) \<lparr>p_index = Some [3], p_meta = [rec]\<rparr>
        ''how many?'') = Inr ''42 [file:t.csv row001 c000]''"
    by (simp add: test_env_def default_config_def qa_answer_def a)
  from 1 2 show ?thesis unfolding rec_def by blast
qed

section \<open>Ingestion: failure without supported files, and the CSV scenario\<close>

text \<open>
  \<^bold>\<open>C5\<close>. For a folder that exists and holds no file with a supported extension,
  \<^verbatim>\<open>ingest_folder\<close> fails with the error \<^verbatim>\<open>No supported files found in folder.\<close> and
  the storage directory is as it was: none of the three artifacts is written.
\<close>

theorem ingest_folder_no_supported_files:
  assumes "folder_is_dir fld" and "filter supported (walk_files fld) = []"
  shows "ingest_folder cfg ev fld p st
       = (Raises (RuntimeError ''No supported files found in folder.''), st)"
  using assms by (simp add: ingest_folder_def Let_def)

theorem ingest_folder_no_supported_files_witness:
  "folder_is_dir (top_folder [blank_file ''notes.doc'', blank_file ''README'', blank_file ''.csv''])
   \<and> filter supported (walk_files (top_folder
         [blank_file ''notes.doc'', blank_file ''README'', blank_file ''.csv''])) = []
   \<and> ingest_folder default_config (test_env [])
        (top_folder [blank_file ''notes.doc'', blank_file ''README'', blank_file ''.csv''])
        new_pipeline
        \<lparr>index_file = Some [1, 2], meta_file = Some [], manifest_file = Some Map.empty\<rparr>
      = (Raises (RuntimeError ''No supported files found in folder.''),
         \<lparr>index_file = Some [1, 2], meta_file = Some [], manifest_file = Some Map.empty\<rparr>)"
proof -
  have h1: "folder_is_dir (top_folder [blank_file ''notes.doc'', blank_file ''README'', blank_file ''.csv''])"
    by (simp add: top_folder_def)
  have h2: "filter supported (walk_files (top_folder
         [blank_file ''notes.doc'', blank_file ''README'', blank_file ''.csv''])) = []"
    by code_simp
  from ingest_folder_no_supported_files [OF h1 h2] h1 h2 show ?thesis by blast
qed

lemma two_row_csv_metas:
  assumes "fe_csv_rows e = [[Some ''a'', Some ''b''], [Some ''1'', Some ''2'']]"
  shows "csv_metas e rel =
     [\<lparr>m_source = fe_abspath e, m_rel = rel, m_file_type = ''csv'', m_page = None,
       m_sheet = None, m_row = Some 0, m_chunk_id = 0,
       m_tag = tag_csv rel 0, m_text = ''a | b''\<rparr>,
      \<lparr>m_source = fe_abspath e, m_rel = rel, m_file_type = ''csv'', m_page = None,
       m_sheet = None, m_row = Some 1, m_chunk_id = 0,
       m_tag = tag_csv rel 1, m_text = ''1 | 2''\<rparr>]"
proof -
  have s: "py_strip ''a'' = ''a''" "py_strip ''b'' = ''b''" "py_strip ''1'' = ''1''"
    "py_strip ''2'' = ''2''" "py_strip ''a | b'' = ''a | b''" "py_strip ''1 | 2'' = ''1 | 2''"
    by code_simp+
  have e: "enumerate 0 [[Some ''a'', Some ''b''], [Some ''1'', Some ''2'']]
      = [(0, [Some ''a'', Some ''b'']), (1, [Some ''1'', Some ''2''])]"
    by (simp add: enumerate_eq_zip upt_rec)
  show ?thesis
    unfolding csv_metas_def assms e by (simp add: List.map_filter_simps s Let_def)
qed

lemma fmt03d_0: "fmt03d 0 = ''000''"
  by code_simp

lemma fmt03d_1: "fmt03d (Suc 0) = ''001''"
  by code_simp

text \<open>
  \<^bold>\<open>C9\<close>. For a folder whose only supported file is a CSV file with the two rows
  \<open>a,b\<close> and \<open>1,2\<close>, ingestion produces exactly two metadata records, with the citation
  tags \<^verbatim>\<open>[file:<name> row000 c000]\<close> and \<^verbatim>\<open>[file:<name> row001 c000]\<close> and the texts
  \<^verbatim>\<open>a | b\<close> and \<^verbatim>\<open>1 | 2\<close>; \<^verbatim>\<open><name>\<close> is the file's path relative to the folder with
  \<^verbatim>\<open>/\<close> as separator, the file name itself for a file at the top of the folder.
\<close>

theorem ingest_folder_two_row_csv:
  assumes "folder_is_dir fld"
    and "filter supported (walk_files fld) = [e]"
    and "splitext_ext (py_lower (fe_name e)) = ''.csv''"
    and "fe_csv_rows e = [[Some ''a'', Some ''b''], [Some ''1'', Some ''2'']]"
  shows "\<exists>p' st'. ingest_folder cfg ev fld p st = (Returns p', st')
      \<and> length (p_meta p') = 2
      \<and> map m_tag (p_meta p')
          = [''[file:'' @ rel_of e @ '' row000 c000]'', ''[file:'' @ rel_of e @ '' row001 c000]'']
      \<and> map m_text (p_meta p') = [''a | b'', ''1 | 2'']
      \<and> map m_file_type (p_meta p') = [''csv'', ''csv'']
      \<and> map m_row (p_meta p') = [Some 0, Some 1]
      \<and> meta_file st' = Some (p_meta p')"
proof -
  have "file_metas cfg ev e (rel_of e) = Returns (csv_metas e (rel_of e))"
    using assms(3) by (simp add: file_metas_def exts_img_def exts_txt_def exts_csv_def)
  then show ?thesis
    using assms(1,2)
    by (simp add: ingest_folder_def Let_def two_row_csv_metas [OF assms(4)]
        tag_csv_def fmt03d_0 fmt03d_1)
qed

theorem ingest_folder_two_row_csv_witness:
  "rel_of ((blank_file ''t.csv'') \<lparr>fe_csv_rows := [[Some ''a'', Some ''b''], [Some ''1'', Some ''2'']]\<rparr>)
     = ''t.csv''
   \<and> map_option (map m_tag) (returned_meta (ingest_folder default_config (test_env [])
        (top_folder
          [blank_file ''README'',
           (blank_file ''t.csv'') \<lparr>fe_csv_rows := [[Some ''a'', Some ''b''], [Some ''1'', Some ''2'']]\<rparr>])
        new_pipeline empty_store))
      = Some [''[file:t.csv row000 c000]'', ''[file:t.csv row001 c000]'']
   \<and> map_option (map m_text) (returned_meta (ingest_folder default_config (test_env [])
        (top_folder
          [blank_file ''README'',
           (blank_file ''t.csv'') \<lparr>fe_csv_rows := [[Some ''a'', Some ''b''], [Some ''1'', Some ''2'']]\<rparr>])
        new_pipeline empty_store))
      = Some [''a | b'', ''1 | 2'']"
proof -
  define e where
    "e = (blank_file ''t.csv'') \<lparr>fe_csv_rows := [[Some ''a'', Some ''b''], [Some ''1'', Some ''2'']]\<rparr>"
  define fld where "fld = top_folder [blank_file ''README'', e]"
  have h1: "folder_is_dir fld" by (simp add: fld_def top_folder_def)
  have h2: "filter supported (walk_files fld) = [e]" unfolding fld_def e_def by code_simp
  have h3: "splitext_ext (py_lower (fe_name e)) = ''.csv''" unfolding e_def by code_simp
  have h4: "fe_csv_rows e = [[Some ''a'', Some ''b''], [Some ''1'', Some ''2'']]"
    by (simp add: e_def)
  have r: "rel_of e = ''t.csv''" unfolding e_def by code_simp
  from ingest_folder_two_row_csv [OF h1 h2 h3 h4, of default_config "test_env []" new_pipeline empty_store]
  have "\<exists>p' st'.
      ingest_folder default_config (test_env []) fld new_pipeline empty_store = (Returns p', st')
      \<and> map m_tag (p_meta p') = [''[file:t.csv row000 c000]'', ''[file:t.csv row001 c000]'']
      \<and> map m_text (p_meta p') = [''a | b'', ''1 | 2'']"
    unfolding r by auto
  then have "map_option (map m_tag) (returned_meta
        (ingest_folder default_config (test_env []) fld new_pipeline empty_store))
      = Some [''[file:t.csv row000 c000]'', ''[file:t.csv row001 c000]'']"
    and "map_option (map m_text) (returned_meta
        (ingest_folder default_config (test_env []) fld new_pipeline empty_store))
      = Some [''a | b'', ''1 | 2'']"
    by (auto simp: returned_meta_def)
  with r show ?thesis unfolding fld_def e_def by blast
qed

section \<open>Citation tags\<close>

lemma of_char_digit: "(n::nat) < 10 \<Longrightarrow> (of_char (char_of (48 + n) :: char) :: nat) = 48 + n"
  by simp

lemma digit_char: "(n::nat) < 10 \<Longrightarrow> is_digit (char_of (48 + n))"
  by (simp only: is_digit_def of_char_digit) simp

lemma str_of_nat_digits: "\<forall>c\<in>set (str_of_nat n). is_digit c"
proof (induction n rule: str_of_nat.induct)
  case (1 n)
  show ?case
  proof (cases "n < 10")
    case True
    then show ?thesis by (subst str_of_nat.simps) (simp add: digit_char)
  next
    case False
    with 1 have "\<forall>c\<in>set (str_of_nat (n div 10)). is_digit c" by simp
    moreover have "is_digit (char_of (48 + n mod 10))" by (rule digit_char) simp
    ultimately show ?thesis using False by (subst str_of_nat.simps) simp
  qed
qed

lemma str_of_nat_nonempty: "str_of_nat n \<noteq> []"
  by (subst str_of_nat.simps) simp

lemma str_of_nat_value:
  "foldl (\<lambda>a c. 10 * a + (of_char c - 48)) 0 (str_of_nat n) = n"
proof (induction n rule: str_of_nat.induct)
  case (1 n)
  show ?case
  proof (cases "n < 10")
    case True
    then have "str_of_nat n = [char_of (48 + n)]" by (subst str_of_nat.simps) simp
    with True show ?thesis by (simp add: of_char_digit del: of_char_of)
  next
    case False
    with 1 have IH: "foldl (\<lambda>a c. 10 * a + (of_char c - 48)) 0 (str_of_nat (n div 10)) = n div 10"
      by simp
    have d: "(of_char (char_of (48 + n mod 10) :: char) :: nat) = 48 + n mod 10"
      by (rule of_char_digit) simp
    have "str_of_nat n = str_of_nat (n div 10) @ [char_of (48 + n mod 10)]"
      using False by (subst str_of_nat.simps) simp
    then have "foldl (\<lambda>a c. 10 * a + (of_char c - 48)) 0 (str_of_nat n)
        = 10 * (n div 10) + (48 + n mod 10 - 48)"
      by (simp only: foldl_append foldl.simps IH d)
    then show ?thesis by simp
  qed
qed

lemma foldl_zeros:
  "foldl (\<lambda>a c. 10 * a + (of_char c - 48)) (0::nat) (replicate k (CHR ''0'')) = 0"
  by (induction k) simp_all

lemma fmt03d_value: "foldl (\<lambda>a c. 10 * a + (of_char c - 48)) 0 (fmt03d n) = n"
  by (simp add: fmt03d_def foldl_zeros str_of_nat_value)

lemma fmt03d_inj:
  assumes "fmt03d n = fmt03d m"
  shows "n = m"
proof -
  have "n = foldl (\<lambda>a c. 10 * a + (of_char c - 48)) 0 (fmt03d n)"
    by (rule fmt03d_value [symmetric])
  also have "\<dots> = foldl (\<lambda>a c. 10 * a + (of_char c - 48)) 0 (fmt03d m)"
    by (simp only: assms)
  also have "\<dots> = m" by (rule fmt03d_value)
  finally show ?thesis .
qed

lemma fmt03d_digits: "\<forall>c\<in>set (fmt03d n). is_digit c"
  using str_of_nat_digits [of n] by (auto simp: fmt03d_def is_digit_def)

lemma fmt03d_nonempty: "fmt03d n \<noteq> []"
  by (simp add: fmt03d_def str_of_nat_nonempty)

lemma digits_then_stop:
  assumes "X @ c1 # A = Y @ c2 # B"
    and "\<forall>d\<in>set X. is_digit d" and "\<forall>d\<in>set Y. is_digit d"
    and "\<not> is_digit c1" and "\<not> is_digit c2"
  shows "X = Y \<and> c1 = c2 \<and> A = B"
  using assms
proof (induction X arbitrary: Y)
  case Nil
  then show ?case by (cases Y) auto
next
  case (Cons x X)
  then show ?case by (cases Y) auto
qed

lemma trailing_digits_eq:
  assumes "A @ c1 # D1 = B @ c2 # D2"
    and "\<forall>d\<in>set D1. is_digit d" and "\<forall>d\<in>set D2. is_digit d"
    and "\<not> is_digit c1" and "\<not> is_digit c2"
  shows "A = B \<and> c1 = c2 \<and> D1 = D2"
proof -
  from assms(1) have "rev (A @ c1 # D1) = rev (B @ c2 # D2)" by simp
  then have "rev D1 @ c1 # rev A = rev D2 @ c2 # rev B" by simp
  from digits_then_stop [OF this] assms(2-5) show ?thesis by simp
qed

lemma has_infix_prefix: "has_infix pat (pat @ b)"
proof (cases "pat @ b")
  case Nil
  then show ?thesis by simp
next
  case (Cons x xs)
  have "take (length pat) (pat @ b) = pat" by simp
  then show ?thesis unfolding Cons by simp
qed

lemma has_infix_append: "has_infix pat (a @ pat @ b)"
  by (induction a) (simp_all add: has_infix_prefix)

lemma not_digit_letters:
  "\<not> is_digit (CHR ''c'')" "\<not> is_digit (CHR ''p'')" "\<not> is_digit (CHR ''w'')"
  by (simp_all add: is_digit_def)

lemma digits_000: "\<forall>d\<in>set ''000''. is_digit d"
  by (simp add: is_digit_def)

text \<open>Every tag is \<open>[file:\<close>, a body that ends in \<open>c\<close> and digits, and \<open>]\<close>.\<close>

lemma tag_pdf_form:
  "tag_pdf a p c = ''[file:'' @ ((((a @ '' '') @ CHR ''p'' # fmt03d p) @ '' '') @ CHR ''c'' # fmt03d c) @ '']''"
  by (simp add: tag_pdf_def)

lemma tag_chunk_form:
  "tag_chunk a c = ''[file:'' @ ((a @ '' '') @ CHR ''c'' # fmt03d c) @ '']''"
  by (simp add: tag_chunk_def)

lemma tag_csv_form:
  "tag_csv a r = ''[file:'' @ ((((a @ '' ro'') @ CHR ''w'' # fmt03d r) @ '' '') @ CHR ''c'' # ''000'') @ '']''"
  by (simp add: tag_csv_def)

lemma tag_excel_form:
  "tag_excel a s r = ''[file:'' @ (((((a @ '' sheet:'' @ s) @ '' ro'') @ CHR ''w'' # fmt03d r) @ '' '') @ CHR ''c'' # ''000'') @ '']''"
  by (simp add: tag_excel_def)

lemma tag_body_eq:
  assumes "''[file:'' @ ((Y @ '' '') @ CHR ''c'' # D) @ '']'' = ''[file:'' @ ((Y' @ '' '') @ CHR ''c'' # D') @ '']''"
    and "\<forall>d\<in>set D. is_digit d" and "\<forall>d\<in>set D'. is_digit d"
  shows "Y = Y' \<and> D = D'"
proof -
  from assms(1) have "(Y @ '' '') @ CHR ''c'' # D = (Y' @ '' '') @ CHR ''c'' # D'"
    by (simp only: same_append_eq append_same_eq)
  from trailing_digits_eq [OF this assms(2,3) not_digit_letters(1) not_digit_letters(1)]
  show ?thesis by simp
qed

lemma ends_in_digit:
  assumes "a = Y @ c # D" and "D \<noteq> []" and "\<forall>d\<in>set D. is_digit d"
  shows "a \<noteq> [] \<and> is_digit (last a)"
  using assms by simp

lemma tag_pdf_pdf:
  assumes "tag_pdf a p c = tag_pdf a' p' c'"
  shows "a = a' \<and> p = p' \<and> c = c'"
proof -
  from assms tag_body_eq [OF _ fmt03d_digits fmt03d_digits]
  have 1: "(a @ '' '') @ CHR ''p'' # fmt03d p = (a' @ '' '') @ CHR ''p'' # fmt03d p'"
    and 2: "fmt03d c = fmt03d c'"
    unfolding tag_pdf_form by blast+
  from trailing_digits_eq [OF 1 fmt03d_digits fmt03d_digits not_digit_letters(2) not_digit_letters(2)]
  have "a = a'" and "fmt03d p = fmt03d p'" by simp_all
  with 2 show ?thesis by (simp add: fmt03d_inj)
qed

lemma tag_chunk_chunk:
  assumes "tag_chunk a c = tag_chunk a' c'"
  shows "a = a' \<and> c = c'"
proof -
  from assms tag_body_eq [OF _ fmt03d_digits fmt03d_digits]
  have "a = a'" and "fmt03d c = fmt03d c'"
    unfolding tag_chunk_form by blast+
  then show ?thesis by (simp add: fmt03d_inj)
qed

lemma tag_csv_csv:
  assumes "tag_csv a r = tag_csv a' r'"
  shows "a = a' \<and> r = r'"
proof -
  from assms tag_body_eq [OF _ digits_000 digits_000]
  have 1: "(a @ '' ro'') @ CHR ''w'' # fmt03d r = (a' @ '' ro'') @ CHR ''w'' # fmt03d r'"
    unfolding tag_csv_form by blast
  from trailing_digits_eq [OF 1 fmt03d_digits fmt03d_digits not_digit_letters(3) not_digit_letters(3)]
  have "a = a'" and "fmt03d r = fmt03d r'" by simp_all
  then show ?thesis by (simp add: fmt03d_inj)
qed

lemma tag_pdf_chunk:
  assumes "tag_pdf a p c = tag_chunk a' c'"
  shows "a' \<noteq> [] \<and> is_digit (last a')"
proof -
  from assms tag_body_eq [OF _ fmt03d_digits fmt03d_digits]
  have "(a @ '' '') @ CHR ''p'' # fmt03d p = a'"
    unfolding tag_pdf_form tag_chunk_form by blast
  then have "a' = (a @ '' '') @ CHR ''p'' # fmt03d p" by simp
  from ends_in_digit [OF this fmt03d_nonempty fmt03d_digits] show ?thesis .
qed

lemma tag_csv_chunk:
  assumes "tag_csv a r = tag_chunk a' c'"
  shows "a' \<noteq> [] \<and> is_digit (last a')"
proof -
  from assms tag_body_eq [OF _ digits_000 fmt03d_digits]
  have "(a @ '' ro'') @ CHR ''w'' # fmt03d r = a'"
    unfolding tag_csv_form tag_chunk_form by blast
  then have "a' = (a @ '' ro'') @ CHR ''w'' # fmt03d r" by simp
  from ends_in_digit [OF this fmt03d_nonempty fmt03d_digits] show ?thesis .
qed

lemma tag_excel_chunk:
  assumes "tag_excel a s r = tag_chunk a' c'"
  shows "a' \<noteq> [] \<and> is_digit (last a')"
proof -
  from assms tag_body_eq [OF _ digits_000 fmt03d_digits]
  have "((a @ '' sheet:'' @ s) @ '' ro'') @ CHR ''w'' # fmt03d r = a'"
    unfolding tag_excel_form tag_chunk_form by blast
  then have "a' = ((a @ '' sheet:'' @ s) @ '' ro'') @ CHR ''w'' # fmt03d r" by simp
  from ends_in_digit [OF this fmt03d_nonempty fmt03d_digits] show ?thesis .
qed

lemma tag_pdf_csv: "tag_pdf a p c \<noteq> tag_csv a' r"
proof
  assume "tag_pdf a p c = tag_csv a' r"
  with tag_body_eq [OF _ fmt03d_digits digits_000]
  have 1: "(a @ '' '') @ CHR ''p'' # fmt03d p = (a' @ '' ro'') @ CHR ''w'' # fmt03d r"
    unfolding tag_pdf_form tag_csv_form by blast
  from trailing_digits_eq [OF 1 fmt03d_digits fmt03d_digits not_digit_letters(2) not_digit_letters(3)]
  show False by simp
qed

lemma tag_pdf_excel: "tag_pdf a p c \<noteq> tag_excel a' s r"
proof
  assume "tag_pdf a p c = tag_excel a' s r"
  with tag_body_eq [OF _ fmt03d_digits digits_000]
  have 1: "(a @ '' '') @ CHR ''p'' # fmt03d p = ((a' @ '' sheet:'' @ s) @ '' ro'') @ CHR ''w'' # fmt03d r"
    unfolding tag_pdf_form tag_excel_form by blast
  from trailing_digits_eq [OF 1 fmt03d_digits fmt03d_digits not_digit_letters(2) not_digit_letters(3)]
  show False by simp
qed

lemma tag_csv_excel:
  assumes "tag_csv a r = tag_excel a' s r'"
  shows "has_infix '' sheet:'' a"
proof -
  from assms tag_body_eq [OF _ digits_000 digits_000]
  have 1: "(a @ '' ro'') @ CHR ''w'' # fmt03d r = ((a' @ '' sheet:'' @ s) @ '' ro'') @ CHR ''w'' # fmt03d r'"
    unfolding tag_csv_form tag_excel_form by blast
  from trailing_digits_eq [OF 1 fmt03d_digits fmt03d_digits not_digit_letters(3) not_digit_letters(3)]
  have "a @ '' ro'' = (a' @ '' sheet:'' @ s) @ '' ro''" by simp
  then have "a = a' @ '' sheet:'' @ s" by (simp only: append_same_eq)
  then show ?thesis by (simp only: has_infix_append)
qed

lemma sheet_sep_overlap:
  assumes "us @ vs = '' sheet:''" and "us \<noteq> []" and "'' sheet:'' @ n1 = vs @ n2"
  shows "vs = []"
proof (rule ccontr)
  assume "vs \<noteq> []"
  from assms(1,2) \<open>vs \<noteq> []\<close> have
    "vs = ''sheet:'' \<or> vs = ''heet:'' \<or> vs = ''eet:'' \<or> vs = ''et:'' \<or> vs = ''t:'' \<or> vs = '':''"
    by (auto simp: append_eq_Cons_conv)
  with assms(3) show False by auto
qed

lemma sheet_sep_left:
  assumes "A = B @ us" and "us @ '' sheet:'' @ n1 = '' sheet:'' @ n2"
    and "\<not> has_infix '' sheet:'' A"
  shows "us = []"
proof (rule ccontr)
  assume ne: "us \<noteq> []"
  from assms(2) have "\<exists>vs. (us = '' sheet:'' @ vs \<and> vs @ '' sheet:'' @ n1 = n2)
      \<or> (us @ vs = '' sheet:'' \<and> '' sheet:'' @ n1 = vs @ n2)"
    by (rule append_eq_append_conv2 [THEN iffD1])
  then obtain vs where
    "(us = '' sheet:'' @ vs \<and> vs @ '' sheet:'' @ n1 = n2)
      \<or> (us @ vs = '' sheet:'' \<and> '' sheet:'' @ n1 = vs @ n2)" ..
  then show False
  proof
    assume "us = '' sheet:'' @ vs \<and> vs @ '' sheet:'' @ n1 = n2"
    then have "A = B @ '' sheet:'' @ vs" using assms(1) by simp
    then have "has_infix '' sheet:'' A" by (simp only: has_infix_append)
    with assms(3) show False by simp
  next
    assume a: "us @ vs = '' sheet:'' \<and> '' sheet:'' @ n1 = vs @ n2"
    with ne have "vs = []" using sheet_sep_overlap by blast
    with a have "A = B @ '' sheet:'' @ []" using assms(1) by simp
    then have "has_infix '' sheet:'' A" by (simp only: has_infix_append)
    with assms(3) show False by simp
  qed
qed

lemma sheet_sep_unique:
  assumes "A @ '' sheet:'' @ n1 = B @ '' sheet:'' @ n2"
    and "\<not> has_infix '' sheet:'' A" and "\<not> has_infix '' sheet:'' B"
  shows "A = B \<and> n1 = n2"
proof -
  from assms(1) have "\<exists>us. (A = B @ us \<and> us @ '' sheet:'' @ n1 = '' sheet:'' @ n2)
      \<or> (A @ us = B \<and> '' sheet:'' @ n1 = us @ '' sheet:'' @ n2)"
    by (rule append_eq_append_conv2 [THEN iffD1])
  then obtain us where
    "(A = B @ us \<and> us @ '' sheet:'' @ n1 = '' sheet:'' @ n2)
      \<or> (A @ us = B \<and> '' sheet:'' @ n1 = us @ '' sheet:'' @ n2)" ..
  then have "A = B"
  proof
    assume a: "A = B @ us \<and> us @ '' sheet:'' @ n1 = '' sheet:'' @ n2"
    then have "us = []" using sheet_sep_left [of A B us n1 n2] assms(2) by blast
    with a show ?thesis by simp
  next
    assume a: "A @ us = B \<and> '' sheet:'' @ n1 = us @ '' sheet:'' @ n2"
    then have "us = []" using sheet_sep_left [of B A us n2 n1] assms(3) by metis
    with a show ?thesis by simp
  qed
  with assms(1) show ?thesis by simp
qed

lemma tag_excel_excel:
  assumes "tag_excel a s r = tag_excel a' s' r'"
    and "\<not> has_infix '' sheet:'' a" and "\<not> has_infix '' sheet:'' a'"
  shows "a = a' \<and> s = s' \<and> r = r'"
proof -
  from assms(1) tag_body_eq [OF _ digits_000 digits_000]
  have 1: "((a @ '' sheet:'' @ s) @ '' ro'') @ CHR ''w'' # fmt03d r
         = ((a' @ '' sheet:'' @ s') @ '' ro'') @ CHR ''w'' # fmt03d r'"
    unfolding tag_excel_form by blast
  from trailing_digits_eq [OF 1 fmt03d_digits fmt03d_digits not_digit_letters(3) not_digit_letters(3)]
  have 2: "(a @ '' sheet:'' @ s) @ '' ro'' = (a' @ '' sheet:'' @ s') @ '' ro''"
    and 3: "fmt03d r = fmt03d r'" by simp_all
  from 2 have "a @ '' sheet:'' @ s = a' @ '' sheet:'' @ s'" by (simp only: append_same_eq)
  from sheet_sep_unique [OF this assms(2,3)] 3 show ?thesis by (simp add: fmt03d_inj)
qed

lemma py_replace_single_map:
  "py_replace [a] [b] s = map (\<lambda>c. if c = a then b else c) s"
proof (induction s)
  case Nil
  show ?case by (simp add: py_replace.simps [of "[a]" "[b]" "[]"])
next
  case (Cons c s)
  then show ?case by (simp add: py_replace.simps [of "[a]" "[b]" "c # s"])
qed

lemma splitext_suffix:
  assumes "splitext_ext p \<noteq> []"
  shows "\<exists>a. p = a @ splitext_ext p"
proof -
  define upto where "upto = dropWhile (\<lambda>c. c \<noteq> CHR ''.'') (rev p)"
  define after where "after = rev (takeWhile (\<lambda>c. c \<noteq> CHR ''.'') (rev p))"
  from assms have ne: "upto \<noteq> []" and ext: "splitext_ext p = CHR ''.'' # after"
    by (auto simp: splitext_ext_def upto_def after_def Let_def split: if_splits)
  from ne have "hd upto = CHR ''.''"
    using hd_dropWhile [of "\<lambda>c. c \<noteq> CHR ''.''" "rev p"] by (simp add: upto_def)
  with ne have u: "upto = CHR ''.'' # tl upto" by (cases upto) auto
  have "p = rev upto @ after"
    using rev_dropWhile_rev_prefix [of p "\<lambda>c. c \<noteq> CHR ''.''"] by (simp add: upto_def after_def)
  also have "rev upto = rev (tl upto) @ [CHR ''.'']" by (subst u) simp
  finally have "p = rev (tl upto) @ (CHR ''.'' # after)" by simp
  then have "p = rev (tl upto) @ splitext_ext p" unfolding ext .
  then show ?thesis ..
qed

lemma py_lower_char_digit: "is_digit c \<Longrightarrow> py_lower_char c = c"
  by (simp add: py_lower_char_def is_digit_def Let_def)

lemma chunk_ext_last:
  "ext \<in> set (exts_img @ exts_txt) \<Longrightarrow> ext \<noteq> [] \<and> \<not> is_digit (last ext)"
  by (auto simp: exts_img_def exts_txt_def is_digit_def)

lemma chunk_rel_ok:
  assumes "splitext_ext (py_lower (fe_name e)) \<in> set (exts_img @ exts_txt)"
  shows "rel_of e \<noteq> [] \<and> \<not> is_digit (last (rel_of e))"
proof -
  let ?ext = "splitext_ext (py_lower (fe_name e))"
  from chunk_ext_last [OF assms] have ext: "?ext \<noteq> []" "\<not> is_digit (last ?ext)" by simp_all
  from splitext_suffix [OF ext(1)] obtain a where a: "py_lower (fe_name e) = a @ ?ext" ..
  with ext(1) have ne: "fe_name e \<noteq> []" by (auto simp: py_lower_def)
  from a ext(1) have "last (py_lower (fe_name e)) = last ?ext" by (metis last_appendR)
  moreover have "last (py_lower (fe_name e)) = py_lower_char (last (fe_name e))"
    using ne by (simp add: py_lower_def last_map)
  ultimately have "\<not> is_digit (py_lower_char (last (fe_name e)))" using ext(2) by simp
  then have nd: "\<not> is_digit (last (fe_name e))" using py_lower_char_digit by metis
  have rel: "rel_of e = map (\<lambda>c. if c = CHR 0x5C then CHR ''/'' else c) (fe_dir e @ fe_name e)"
    unfolding rel_of_def by (rule py_replace_single_map)
  from ne have "last (rel_of e)
      = (if last (fe_name e) = CHR 0x5C then CHR ''/'' else last (fe_name e))"
    unfolding rel by (simp add: last_map)
  moreover have "\<not> is_digit (CHR ''/'')" by (simp add: is_digit_def)
  ultimately have "\<not> is_digit (last (rel_of e))" using nd by simp
  moreover from ne have "rel_of e \<noteq> []" unfolding rel by simp
  ultimately show ?thesis by simp
qed

lemma tag_determines_address:
  assumes ok: "tag_ok r" "tag_ok r'"
    and sep: "\<not> has_infix '' sheet:'' (m_rel r)" "\<not> has_infix '' sheet:'' (m_rel r')"
    and eq: "m_tag r = m_tag r'"
  shows "address r = address r'"
proof -
  consider
      (pdf) pg where "m_page r = Some pg" "m_sheet r = None" "m_row r = None"
        "m_tag r = tag_pdf (m_rel r) pg (m_chunk_id r)"
    | (chunk) "m_page r = None" "m_sheet r = None" "m_row r = None"
        "m_tag r = tag_chunk (m_rel r) (m_chunk_id r)"
        "m_rel r \<noteq> []" "\<not> is_digit (last (m_rel r))"
    | (csv) ri where "m_page r = None" "m_sheet r = None" "m_row r = Some ri"
        "m_tag r = tag_csv (m_rel r) ri" "m_chunk_id r = 0"
    | (excel) s ri where "m_page r = None" "m_sheet r = Some s" "m_row r = Some ri"
        "m_tag r = tag_excel (m_rel r) s ri" "m_chunk_id r = 0"
    using ok(1) unfolding tag_ok_def by (auto split: option.splits)
  note r_cases = this
  consider
      (pdf') pg' where "m_page r' = Some pg'" "m_sheet r' = None" "m_row r' = None"
        "m_tag r' = tag_pdf (m_rel r') pg' (m_chunk_id r')"
    | (chunk') "m_page r' = None" "m_sheet r' = None" "m_row r' = None"
        "m_tag r' = tag_chunk (m_rel r') (m_chunk_id r')"
        "m_rel r' \<noteq> []" "\<not> is_digit (last (m_rel r'))"
    | (csv') ri' where "m_page r' = None" "m_sheet r' = None" "m_row r' = Some ri'"
        "m_tag r' = tag_csv (m_rel r') ri'" "m_chunk_id r' = 0"
    | (excel') s' ri' where "m_page r' = None" "m_sheet r' = Some s'" "m_row r' = Some ri'"
        "m_tag r' = tag_excel (m_rel r') s' ri'" "m_chunk_id r' = 0"
    using ok(2) unfolding tag_ok_def by (auto split: option.splits)
  note r'_cases = this
  show ?thesis
  proof (cases rule: r_cases)
    case pdf
    show ?thesis
    proof (cases rule: r'_cases)
      case pdf'
      with pdf eq tag_pdf_pdf show ?thesis unfolding address_def by metis
    next
      case chunk'
      with pdf eq tag_pdf_chunk show ?thesis by metis
    next
      case csv'
      with pdf eq tag_pdf_csv show ?thesis by metis
    next
      case excel'
      with pdf eq tag_pdf_excel show ?thesis by metis
    qed
  next
    case chunk
    show ?thesis
    proof (cases rule: r'_cases)
      case pdf'
      with chunk eq tag_pdf_chunk show ?thesis by metis
    next
      case chunk'
      with chunk eq tag_chunk_chunk show ?thesis unfolding address_def by metis
    next
      case csv'
      with chunk eq tag_csv_chunk show ?thesis by metis
    next
      case excel'
      with chunk eq tag_excel_chunk show ?thesis by metis
    qed
  next
    case csv
    show ?thesis
    proof (cases rule: r'_cases)
      case pdf'
      with csv eq tag_pdf_csv show ?thesis by metis
    next
      case chunk'
      with csv eq tag_csv_chunk show ?thesis by metis
    next
      case csv'
      with csv eq tag_csv_csv show ?thesis unfolding address_def by metis
    next
      case excel'
      with csv eq sep tag_csv_excel show ?thesis by metis
    qed
  next
    case excel
    show ?thesis
    proof (cases rule: r'_cases)
      case pdf'
      with excel eq tag_pdf_excel show ?thesis by metis
    next
      case chunk'
      with excel eq tag_excel_chunk show ?thesis by metis
    next
      case csv'
      with excel eq sep tag_csv_excel show ?thesis by metis
    next
      case excel'
      with excel eq sep tag_excel_excel show ?thesis unfolding address_def by metis
    qed
  qed
qed

lemma distinct_map_finer:
  assumes "distinct (map f xs)" and "\<And>x y. g x = g y \<Longrightarrow> f x = f y"
  shows "distinct (map g xs)"
  using assms(1)
proof (induction xs)
  case Nil
  show ?case by simp
next
  case (Cons x xs)
  then have "f x \<notin> f ` set xs" and "distinct (map g xs)" by simp_all
  moreover from this(1) assms(2) have "g x \<notin> g ` set xs" by (metis imageE imageI)
  ultimately show ?case by simp
qed

lemma distinct_concat_keyed:
  assumes "distinct (map key xs)"
    and "\<And>x. x \<in> set xs \<Longrightarrow> distinct (map addr (F x))"
    and "\<And>x r. x \<in> set xs \<Longrightarrow> r \<in> set (F x) \<Longrightarrow> k r = key x"
    and "\<And>r r'. addr r = addr r' \<Longrightarrow> k r = k r'"
  shows "distinct (map addr (concat (map F xs)))"
  using assms(1,2,3)
proof (induction xs)
  case Nil
  show ?case by simp
next
  case (Cons x xs)
  have 1: "distinct (map addr (F x))" using Cons.prems(2) by simp
  have 2: "distinct (map addr (concat (map F xs)))"
    using Cons.IH Cons.prems by simp
  have 3: "addr ` set (F x) \<inter> addr ` set (concat (map F xs)) = {}"
  proof (rule ccontr)
    assume "addr ` set (F x) \<inter> addr ` set (concat (map F xs)) \<noteq> {}"
    then obtain r r' y where r: "r \<in> set (F x)" and y: "y \<in> set xs" and r': "r' \<in> set (F y)"
      and eq: "addr r = addr r'" by auto
    from r have "k r = key x" using Cons.prems(3) by simp
    moreover from y r' have "k r' = key y" using Cons.prems(3) by simp
    moreover from eq have "k r = k r'" by (rule assms(4))
    ultimately have "key x = key y" by simp
    with y Cons.prems(1) show False by auto
  qed
  from 1 2 3 show ?case by simp
qed

lemma collect_Some:
  "collect f xs = Some ms \<Longrightarrow>
     ms = concat (map (\<lambda>x. the (f x)) xs) \<and> (\<forall>x\<in>set xs. f x \<noteq> None)"
  by (induction xs arbitrary: ms) (auto split: option.splits)

lemma map_fst_enumerate_distinct: "distinct (map fst (enumerate n xs))"
  by (simp add: map_fst_enumerate)

lemma enumerate_key_distinct:
  assumes "inj h"
  shows "distinct (map (\<lambda>x. h (fst x)) (enumerate n xs))"
proof -
  have "map (\<lambda>x. h (fst x)) (enumerate n xs) = map h (map fst (enumerate n xs))"
    by (simp only: map_map comp_def)
  also have "\<dots> = map h [n..<n + length xs]" by (simp only: map_fst_enumerate)
  finally have "map (\<lambda>x. h (fst x)) (enumerate n xs) = map h [n..<n + length xs]" .
  moreover have "distinct (map h [n..<n + length xs])"
    using assms by (auto simp: distinct_map intro: inj_on_subset)
  ultimately show ?thesis by (simp only:)
qed

lemma chunk_metas_inv:
  assumes "chunk_metas cfg e rel ft page txt = Some ms"
    and "page = None \<longrightarrow> rel \<noteq> [] \<and> \<not> is_digit (last rel)"
  shows "(\<forall>r\<in>set ms. tag_ok r \<and> m_rel r = rel \<and> m_page r = page \<and> m_sheet r = None
            \<and> m_row r = None)
       \<and> distinct (map address ms)"
proof -
  from assms(1) obtain chs where
    ms: "ms = map (\<lambda>(ci, ch).
                  \<lparr>m_source = fe_abspath e, m_rel = rel, m_file_type = ft, m_page = page,
                   m_sheet = None, m_row = None, m_chunk_id = ci,
                   m_tag = (case page of Some pg \<Rightarrow> tag_pdf rel pg ci | None \<Rightarrow> tag_chunk rel ci),
                   m_text = ch\<rparr>)
                (enumerate 0 chs)"
    by (auto simp: chunk_metas_def split: option.splits)
  have "map m_chunk_id ms = [0..<length chs]"
    unfolding ms by (simp add: case_prod_unfold comp_def)
  then have "distinct (map m_chunk_id ms)" by simp
  then have d: "distinct (map address ms)"
    by (rule distinct_map_finer) (simp add: address_def)
  have "\<forall>r\<in>set ms. tag_ok r \<and> m_rel r = rel \<and> m_page r = page \<and> m_sheet r = None
            \<and> m_row r = None"
    using assms(2) unfolding ms by (auto simp: tag_ok_def split: option.splits)
  with d show ?thesis by simp
qed

lemma pdf_metas_inv:
  assumes "pdf_metas cfg e rel = Some ms"
  shows "(\<forall>r\<in>set ms. tag_ok r \<and> m_rel r = rel) \<and> distinct (map address ms)"
proof -
  let ?F = "\<lambda>x. the (case x of (i, answer) \<Rightarrow>
      chunk_metas cfg e rel ''pdf'' (Some (Suc i)) (normalize_ws answer))"
  from collect_Some [OF assms [unfolded pdf_metas_def]]
  have ms: "ms = concat (map ?F (enumerate 0 (fe_pdf_pages e)))"
    and some: "\<forall>x\<in>set (enumerate 0 (fe_pdf_pages e)).
       (case x of (i, answer) \<Rightarrow> chunk_metas cfg e rel ''pdf'' (Some (Suc i)) (normalize_ws answer)) \<noteq> None"
    by simp_all
  have each: "(\<forall>r\<in>set (?F x). tag_ok r \<and> m_rel r = rel \<and> m_page r = Some (Suc (fst x)))
       \<and> distinct (map address (?F x))"
    if "x \<in> set (enumerate 0 (fe_pdf_pages e))" for x
  proof -
    obtain i answer where x: "x = (i, answer)" by (cases x)
    with some that obtain cs where
      cs: "chunk_metas cfg e rel ''pdf'' (Some (Suc i)) (normalize_ws answer) = Some cs" by force
    from chunk_metas_inv [OF cs] show ?thesis unfolding x by (simp add: cs)
  qed
  have "distinct (map address (concat (map ?F (enumerate 0 (fe_pdf_pages e)))))"
  proof (rule distinct_concat_keyed [where key = "\<lambda>x. Some (Suc (fst x))" and k = m_page])
    show "distinct (map (\<lambda>x. Some (Suc (fst x))) (enumerate 0 (fe_pdf_pages e)))"
      by (rule enumerate_key_distinct) (simp add: inj_def)
  qed (use each in \<open>auto simp: address_def\<close>)
  moreover have "\<forall>r\<in>set ms. tag_ok r \<and> m_rel r = rel" unfolding ms using each by auto
  ultimately show ?thesis unfolding ms by simp
qed

lemma csv_metas_inv:
  "(\<forall>r\<in>set (csv_metas e rel). tag_ok r \<and> m_rel r = rel) \<and> distinct (map address (csv_metas e rel))"
proof -
  let ?F = "\<lambda>x. case x of (r_i, row) \<Rightarrow>
         (let line = py_join '' | '' (map py_strip (List.map_filter (\<lambda>c. c) row))
          in if py_strip line = [] then []
             else [\<lparr>m_source = fe_abspath e, m_rel = rel, m_file_type = ''csv'', m_page = None,
                    m_sheet = None, m_row = Some r_i, m_chunk_id = 0,
                    m_tag = tag_csv rel r_i, m_text = line\<rparr>])"
  have ms: "csv_metas e rel = concat (map ?F (enumerate 0 (fe_csv_rows e)))"
    by (simp add: csv_metas_def)
  have each: "(\<forall>r\<in>set (?F x). tag_ok r \<and> m_rel r = rel \<and> m_row r = Some (fst x))
       \<and> distinct (map address (?F x))" for x
    by (cases x) (simp add: Let_def tag_ok_def)
  have "distinct (map address (concat (map ?F (enumerate 0 (fe_csv_rows e)))))"
  proof (rule distinct_concat_keyed [where key = "\<lambda>x. Some (fst x)" and k = m_row])
    show "distinct (map (\<lambda>x. Some (fst x)) (enumerate 0 (fe_csv_rows e)))"
      by (rule enumerate_key_distinct) (simp add: inj_def)
  qed (use each in \<open>auto simp: address_def\<close>)
  moreover have "\<forall>r\<in>set (csv_metas e rel). tag_ok r \<and> m_rel r = rel"
    unfolding ms using each by auto
  ultimately show ?thesis unfolding ms by simp
qed

lemma sheet_metas_inv:
  "(\<forall>r\<in>set (sheet_metas e rel name df). tag_ok r \<and> m_rel r = rel \<and> m_sheet r = Some name)
   \<and> distinct (map address (sheet_metas e rel name df))"
proof (cases df)
  case None
  then show ?thesis by (simp add: sheet_metas_def)
next
  case (Some d)
  show ?thesis
  proof (cases "df_columns d = [] \<or> df_rows d = []")
    case True
    with Some show ?thesis by (simp add: sheet_metas_def)
  next
    case False
    define cols where "cols = map (\<lambda>(j, c). if c \<noteq> [] then c else ''col'' @ str_of_nat j)
       (enumerate 0 (map (\<lambda>c. case c of None \<Rightarrow> [] | Some x \<Rightarrow> py_strip x) (df_columns d)))"
    define filled where
      "filled = map (map (\<lambda>v. case v of None \<Rightarrow> Some [] | Some x \<Rightarrow> Some x)) (df_rows d)"
    let ?F = "\<lambda>x. case x of (r_i, row) \<Rightarrow>
                  (let line = format_df_row cols row
                   in if py_strip line = [] then []
                      else [\<lparr>m_source = fe_abspath e, m_rel = rel, m_file_type = ''excel'',
                             m_page = None, m_sheet = Some name, m_row = Some r_i,
                             m_chunk_id = 0, m_tag = tag_excel rel name r_i,
                             m_text = line\<rparr>])"
    have ms: "sheet_metas e rel name df = concat (map ?F (enumerate 0 filled))"
      using Some False by (simp add: sheet_metas_def Let_def cols_def filled_def)
    have each: "(\<forall>r\<in>set (?F x). tag_ok r \<and> m_rel r = rel \<and> m_sheet r = Some name
           \<and> m_row r = Some (fst x))
         \<and> distinct (map address (?F x))" for x
      by (cases x) (simp add: Let_def tag_ok_def)
    have "distinct (map address (concat (map ?F (enumerate 0 filled))))"
    proof (rule distinct_concat_keyed [where key = "\<lambda>x. Some (fst x)" and k = m_row])
      show "distinct (map (\<lambda>x. Some (fst x)) (enumerate 0 filled))"
        by (rule enumerate_key_distinct) (simp add: inj_def)
    qed (use each in \<open>auto simp: address_def\<close>)
    moreover have "\<forall>r\<in>set (sheet_metas e rel name df).
        tag_ok r \<and> m_rel r = rel \<and> m_sheet r = Some name"
      unfolding ms using each by auto
    ultimately show ?thesis unfolding ms by simp
  qed
qed

lemma excel_metas_inv:
  assumes "distinct (map fst (fe_excel_sheets e))"
  shows "(\<forall>r\<in>set (excel_metas e rel). tag_ok r \<and> m_rel r = rel)
       \<and> distinct (map address (excel_metas e rel))"
proof -
  let ?F = "\<lambda>x. case x of (name, df) \<Rightarrow> sheet_metas e rel name df"
  have each: "(\<forall>r\<in>set (?F x). tag_ok r \<and> m_rel r = rel \<and> m_sheet r = Some (fst x))
         \<and> distinct (map address (?F x))" for x
    using sheet_metas_inv [of e rel "fst x" "snd x"] by (cases x) simp
  have "distinct (map address (concat (map ?F (fe_excel_sheets e))))"
  proof (rule distinct_concat_keyed [where key = "\<lambda>x. Some (fst x)" and k = m_sheet])
    have "map (\<lambda>x. Some (fst x)) (fe_excel_sheets e) = map Some (map fst (fe_excel_sheets e))"
      by simp
    moreover have "distinct (map Some (map fst (fe_excel_sheets e)))"
      using assms by (simp only: distinct_map) (auto intro: inj_onI)
    ultimately show "distinct (map (\<lambda>x. Some (fst x)) (fe_excel_sheets e))" by (simp only:)
  qed (use each in \<open>auto simp: address_def\<close>)
  moreover have "\<forall>r\<in>set (excel_metas e rel). tag_ok r \<and> m_rel r = rel"
    unfolding excel_metas_def using each by auto
  ultimately show ?thesis unfolding excel_metas_def by simp
qed

lemma file_metas_inv:
  assumes ret: "file_metas cfg ev e (rel_of e) = Returns ms"
    and sheets: "distinct (map fst (fe_excel_sheets e))"
  shows "(\<forall>r\<in>set ms. tag_ok r \<and> m_rel r = rel_of e) \<and> distinct (map address ms)"
proof -
  let ?ext = "splitext_ext (py_lower (fe_name e))"
  consider (is_pdf) "?ext = ''.pdf''"
    | (is_img) "?ext \<noteq> ''.pdf''" "?ext \<in> set exts_img"
    | (is_txt) "?ext \<noteq> ''.pdf''" "?ext \<notin> set exts_img" "?ext \<in> set exts_txt"
    | (is_csv) "?ext \<noteq> ''.pdf''" "?ext \<notin> set exts_img" "?ext \<notin> set exts_txt" "?ext \<in> set exts_csv"
    | (is_xlsx) "?ext \<noteq> ''.pdf''" "?ext \<notin> set exts_img" "?ext \<notin> set exts_txt" "?ext \<notin> set exts_csv"
        "?ext \<in> set exts_xlsx"
    | (no_reader) "?ext \<noteq> ''.pdf''" "?ext \<notin> set exts_img" "?ext \<notin> set exts_txt" "?ext \<notin> set exts_csv"
        "?ext \<notin> set exts_xlsx"
    by blast
  then show ?thesis
  proof cases
    case is_pdf
    with ret have "pdf_metas cfg e (rel_of e) = Some ms"
      by (auto simp: file_metas_def of_option_def split: if_splits option.splits)
    then show ?thesis by (rule pdf_metas_inv)
  next
    case is_img
    with ret have c: "chunk_metas cfg e (rel_of e) ''image'' None (normalize_ws (fe_ocr e)) = Some ms"
      by (auto simp: file_metas_def of_option_def split: option.splits)
    from is_img have "?ext \<in> set (exts_img @ exts_txt)" by simp
    from chunk_metas_inv [OF c] chunk_rel_ok [OF this] show ?thesis by simp
  next
    case is_txt
    with ret have c: "chunk_metas cfg e (rel_of e) ''text'' None (normalize_ws (fe_read e)) = Some ms"
      by (auto simp: file_metas_def of_option_def split: option.splits)
    from is_txt have "?ext \<in> set (exts_img @ exts_txt)" by simp
    from chunk_metas_inv [OF c] chunk_rel_ok [OF this] show ?thesis by simp
  next
    case is_csv
    with ret have "ms = csv_metas e (rel_of e)" by (simp add: file_metas_def)
    with csv_metas_inv [of e "rel_of e"] show ?thesis by simp
  next
    case is_xlsx
    with ret have "ms = excel_metas e (rel_of e)"
      by (auto simp: file_metas_def split: if_splits)
    with excel_metas_inv [OF sheets, of "rel_of e"] show ?thesis by simp
  next
    case no_reader
    with ret have "ms = []" by (simp add: file_metas_def)
    then show ?thesis by simp
  qed
qed

lemma ingest_files_inv:
  assumes "ingest_files cfg ev files prev = Returns (ms, prev')"
    and "distinct (map rel_of files)"
    and "\<forall>e\<in>set files. distinct (map fst (fe_excel_sheets e))"
  shows "(\<forall>r\<in>set ms. tag_ok r \<and> m_rel r \<in> rel_of ` set files) \<and> distinct (map address ms)"
  using assms
proof (induction files arbitrary: prev ms)
  case Nil
  then show ?case by simp
next
  case (Cons e es)
  from Cons.prems(1) obtain ms1 ms2 where
    f: "file_metas cfg ev e (rel_of e) = Returns ms1"
    and r: "ingest_files cfg ev es (prev(rel_of e \<mapsto> fe_sha256 e)) = Returns (ms2, prev')"
    and ms: "ms = ms1 @ ms2"
    by (auto simp: Let_def split: outcome.splits)
  from Cons.prems(3) have "distinct (map fst (fe_excel_sheets e))" by simp
  from file_metas_inv [OF f this]
  have 1: "\<forall>r\<in>set ms1. tag_ok r \<and> m_rel r = rel_of e" and d1: "distinct (map address ms1)"
    by simp_all
  from Cons.IH [OF r] Cons.prems(2,3)
  have 2: "\<forall>r\<in>set ms2. tag_ok r \<and> m_rel r \<in> rel_of ` set es" and d2: "distinct (map address ms2)"
    by simp_all
  have "address ` set ms1 \<inter> address ` set ms2 = {}"
  proof (rule ccontr)
    assume "address ` set ms1 \<inter> address ` set ms2 \<noteq> {}"
    then obtain r1 r2 where "r1 \<in> set ms1" "r2 \<in> set ms2" "address r1 = address r2" by blast
    with 1 2 have "rel_of e \<in> rel_of ` set es" by (auto simp: address_def)
    with Cons.prems(2) show False by simp
  qed
  with d1 d2 have "distinct (map address ms)" unfolding ms by simp
  moreover from 1 2 have "\<forall>r\<in>set ms. tag_ok r \<and> m_rel r \<in> rel_of ` set (e # es)"
    unfolding ms by auto
  ultimately show ?case by simp
qed

lemma ingest_folder_returns_tags_distinct:
  assumes "ingest_folder cfg ev fld p st = (Returns p', st')"
    and "distinct (map rel_of (filter supported (walk_files fld)))"
    and "\<forall>e\<in>set (filter supported (walk_files fld)). \<not> has_infix '' sheet:'' (rel_of e)"
    and "\<forall>e\<in>set (filter supported (walk_files fld)). distinct (map fst (fe_excel_sheets e))"
  shows "distinct (map m_tag (p_meta p'))"
proof -
  let ?files = "filter supported (walk_files fld)"
  from assms(1) obtain prev prev' where
    r: "ingest_files cfg ev ?files prev = Returns (p_meta p', prev')"
    by (auto simp: ingest_folder_def Let_def split: if_splits outcome.splits)
  from ingest_files_inv [OF r assms(2,4)]
  have ok: "\<forall>r\<in>set (p_meta p'). tag_ok r \<and> m_rel r \<in> rel_of ` set ?files"
    and d: "distinct (map address (p_meta p'))" by simp_all
  from ok assms(3) have sep: "\<forall>r\<in>set (p_meta p'). \<not> has_infix '' sheet:'' (m_rel r)" by auto
  from d have "distinct (p_meta p')" and inj: "inj_on address (set (p_meta p'))"
    by (simp_all add: distinct_map)
  moreover have "inj_on m_tag (set (p_meta p'))"
  proof (rule inj_onI)
    fix r r' assume m: "r \<in> set (p_meta p')" "r' \<in> set (p_meta p')" and eq: "m_tag r = m_tag r'"
    from m ok sep have "tag_ok r" "tag_ok r'"
      "\<not> has_infix '' sheet:'' (m_rel r)" "\<not> has_infix '' sheet:'' (m_rel r')" by simp_all
    then have "address r = address r'" using eq by (rule tag_determines_address)
    with inj m show "r = r'" by (simp add: inj_on_def)
  qed
  ultimately show ?thesis by (simp add: distinct_map)
qed

text \<open>
  \<^bold>\<open>C3\<close>, as the code has it. Within a run of \<^verbatim>\<open>ingest_folder\<close> that returns, no two
  metadata records have the same citation tag, across all file types and files,
  provided that the relative paths of the supported files (with \<^verbatim>\<open>/\<close> as separator)
  are pairwise distinct and none of them contains the text \<^verbatim>\<open> sheet:\<close> (a space, then
  \<^verbatim>\<open>sheet:\<close>); the sheets of a workbook, keys of a dictionary, have distinct names.
\<close>

theorem ingest_folder_tags_distinct:
  assumes "returned_meta (ingest_folder cfg ev fld p st) = Some ms"
    and "distinct (map rel_of (filter supported (walk_files fld)))"
    and "\<forall>e\<in>set (filter supported (walk_files fld)). \<not> has_infix '' sheet:'' (rel_of e)"
    and "\<forall>e\<in>set (filter supported (walk_files fld)). distinct (map fst (fe_excel_sheets e))"
  shows "distinct (map m_tag ms)"
proof -
  from assms(1) obtain p' st' where "ingest_folder cfg ev fld p st = (Returns p', st')"
    and "ms = p_meta p'"
    by (cases "ingest_folder cfg ev fld p st")
      (auto simp: returned_meta_def split: outcome.splits)
  with ingest_folder_returns_tags_distinct [OF this(1) assms(2-4)] show ?thesis by simp
qed

text \<open>
  \<^bold>\<open>C3\<close>, as stated, fails: a CSV file named \<^verbatim>\<open>d.xlsx sheet:s.csv\<close> and the sheet
  \<^verbatim>\<open>s.csv\<close> of the workbook \<^verbatim>\<open>d.xlsx\<close> in the same folder give two records with the
  tag \<^verbatim>\<open>[file:d.xlsx sheet:s.csv row000 c000]\<close>, although the two files have different
  relative paths.
\<close>

theorem tag_collision_counterexample:
  "map_option (map m_tag)
     (returned_meta (ingest_folder default_config (test_env [])
        (top_folder
          [(blank_file ''d.xlsx sheet:s.csv'') \<lparr>fe_csv_rows := [[Some ''a'']]\<rparr>,
           (blank_file ''d.xlsx'') \<lparr>fe_excel_sheets :=
              [(''s.csv'', Some \<lparr>df_columns = [Some ''k''], df_rows = [[Some ''v'']]\<rparr>)]\<rparr>])
        new_pipeline empty_store))
     = Some [''[file:d.xlsx sheet:s.csv row000 c000]'', ''[file:d.xlsx sheet:s.csv row000 c000]'']
   \<and> \<not> distinct [''[file:d.xlsx sheet:s.csv row000 c000]'', ''[file:d.xlsx sheet:s.csv row000 c000]'']
   \<and> distinct (map rel_of
          [(blank_file ''d.xlsx sheet:s.csv'') \<lparr>fe_csv_rows := [[Some ''a'']]\<rparr>,
           (blank_file ''d.xlsx'') \<lparr>fe_excel_sheets :=
              [(''s.csv'', Some \<lparr>df_columns = [Some ''k''], df_rows = [[Some ''v'']]\<rparr>)]\<rparr>])"
  by code_simp

theorem ingest_folder_tags_distinct_witness:
  "returned_meta (ingest_folder default_config (test_env [])
      (top_folder
        [(blank_file ''my notes.TXT'') \<lparr>fe_read := ''Hello   world''\<rparr>,
         (blank_file ''t.csv'') \<lparr>fe_csv_rows := [[Some ''a'', Some ''b''], [], [Some ''1'', Some ''2'']]\<rparr>,
         (blank_file ''d.pdf'') \<lparr>fe_pdf_pages := [''page one'', ''page two'']\<rparr>,
         (blank_file ''w.xlsx'') \<lparr>fe_excel_sheets :=
            [(''S1'', Some \<lparr>df_columns = [Some ''k''], df_rows = [[Some ''v'']]\<rparr>),
             (''S2'', Some \<lparr>df_columns = [None], df_rows = [[Some ''x'']]\<rparr>)]\<rparr>,
         blank_file ''README''])
      new_pipeline empty_store) \<noteq> None
   \<and> map_option (map m_tag) (returned_meta (ingest_folder default_config (test_env [])
      (top_folder
        [(blank_file ''my notes.TXT'') \<lparr>fe_read := ''Hello   world''\<rparr>,
         (blank_file ''t.csv'') \<lparr>fe_csv_rows := [[Some ''a'', Some ''b''], [], [Some ''1'', Some ''2'']]\<rparr>,
         (blank_file ''d.pdf'') \<lparr>fe_pdf_pages := [''page one'', ''page two'']\<rparr>,
         (blank_file ''w.xlsx'') \<lparr>fe_excel_sheets :=
            [(''S1'', Some \<lparr>df_columns = [Some ''k''], df_rows = [[Some ''v'']]\<rparr>),
             (''S2'', Some \<lparr>df_columns = [None], df_rows = [[Some ''x'']]\<rparr>)]\<rparr>,
         blank_file ''README''])
      new_pipeline empty_store))
     = Some [''[file:my notes.TXT c000]'', ''[file:t.csv row000 c000]'', ''[file:t.csv row002 c000]'',
             ''[file:d.pdf p001 c000]'', ''[file:d.pdf p002 c000]'',
             ''[file:w.xlsx sheet:S1 row000 c000]'', ''[file:w.xlsx sheet:S2 row000 c000]'']
   \<and> distinct [''[file:my notes.TXT c000]'', ''[file:t.csv row000 c000]'', ''[file:t.csv row002 c000]'',
             ''[file:d.pdf p001 c000]'', ''[file:d.pdf p002 c000]'',
             ''[file:w.xlsx sheet:S1 row000 c000]'', ''[file:w.xlsx sheet:S2 row000 c000]'']"
proof -
  define fld where "fld = top_folder
        [(blank_file ''my notes.TXT'') \<lparr>fe_read := ''Hello   world''\<rparr>,
         (blank_file ''t.csv'') \<lparr>fe_csv_rows := [[Some ''a'', Some ''b''], [], [Some ''1'', Some ''2'']]\<rparr>,
         (blank_file ''d.pdf'') \<lparr>fe_pdf_pages := [''page one'', ''page two'']\<rparr>,
         (blank_file ''w.xlsx'') \<lparr>fe_excel_sheets :=
            [(''S1'', Some \<lparr>df_columns = [Some ''k''], df_rows = [[Some ''v'']]\<rparr>),
             (''S2'', Some \<lparr>df_columns = [None], df_rows = [[Some ''x'']]\<rparr>)]\<rparr>,
         blank_file ''README'']"
  define ms where "ms = the (returned_meta
      (ingest_folder default_config (test_env []) fld new_pipeline (empty_store :: nat store)))"
  have tags: "map_option (map m_tag) (returned_meta
      (ingest_folder default_config (test_env []) fld new_pipeline (empty_store :: nat store)))
     = Some [''[file:my notes.TXT c000]'', ''[file:t.csv row000 c000]'', ''[file:t.csv row002 c000]'',
             ''[file:d.pdf p001 c000]'', ''[file:d.pdf p002 c000]'',
             ''[file:w.xlsx sheet:S1 row000 c000]'', ''[file:w.xlsx sheet:S2 row000 c000]'']"
    unfolding fld_def by code_simp
  then have ret: "returned_meta
      (ingest_folder default_config (test_env []) fld new_pipeline (empty_store :: nat store)) = Some ms"
    unfolding ms_def by auto
  have h1: "distinct (map rel_of (filter supported (walk_files fld)))"
    unfolding fld_def by code_simp
  have h2: "\<forall>e\<in>set (filter supported (walk_files fld)). \<not> has_infix '' sheet:'' (rel_of e)"
    unfolding fld_def by code_simp
  have h3: "\<forall>e\<in>set (filter supported (walk_files fld)). distinct (map fst (fe_excel_sheets e))"
    unfolding fld_def by code_simp
  from ingest_folder_tags_distinct [OF ret h1 h2 h3] have "distinct (map m_tag ms)" .
  moreover from tags ret have "map m_tag ms
     = [''[file:my notes.TXT c000]'', ''[file:t.csv row000 c000]'', ''[file:t.csv row002 c000]'',
             ''[file:d.pdf p001 c000]'', ''[file:d.pdf p002 c000]'',
             ''[file:w.xlsx sheet:S1 row000 c000]'', ''[file:w.xlsx sheet:S2 row000 c000]'']"
    by simp
  ultimately have "distinct [''[file:my notes.TXT c000]'', ''[file:t.csv row000 c000]'', ''[file:t.csv row002 c000]'',
             ''[file:d.pdf p001 c000]'', ''[file:d.pdf p002 c000]'',
             ''[file:w.xlsx sheet:S1 row000 c000]'', ''[file:w.xlsx sheet:S2 row000 c000]'']"
    by (simp only:)
  with tags ret show ?thesis unfolding fld_def by (simp only:) simp
qed

text \<open>
  The first proviso cannot be dropped either. Where the backslash is not the path
  separator, the file \<^verbatim>\<open>b.txt\<close> in the directory \<^verbatim>\<open>a\<close> and a file at the top of the
  folder whose name is \<^verbatim>\<open>a\<close>, a backslash and \<^verbatim>\<open>b.txt\<close> get the same relative path
  \<^verbatim>\<open>a/b.txt\<close> at line 268, and so the same tags.
\<close>

lemma backslash_name_collision:
  "map_option (map m_tag)
     (returned_meta (ingest_folder default_config (test_env [])
        (top_folder
          [(blank_file ''b.txt'') \<lparr>fe_dir := ''a/'', fe_read := ''x''\<rparr>,
           (blank_file [CHR ''a'', CHR 0x5C, CHR ''b'', CHR ''.'', CHR ''t'', CHR ''x'', CHR ''t''])
             \<lparr>fe_read := ''y''\<rparr>])
        new_pipeline empty_store))
     = Some [''[file:a/b.txt c000]'', ''[file:a/b.txt c000]'']"
  by code_simp

end
